theory Spec2Isabelle
  imports Main "HOL-Library.AList" "HOL-Library.Multiset"
begin

section \<open>Python values and exceptions\<close>

text \<open>
  The programs are Python 3 (setup.py requires 3.8 or newer). An exception that leaves a
  function is the \<open>Inl\<close> branch of a sum; a normal return is \<open>Inr\<close>.
\<close>

datatype py_error =
  TypeError | KeyError | ValueError | IndexError | ZeroDivisionError | AttributeError
  | NameError | StopIteration | TimeoutException | KeyboardInterrupt

section \<open>Ingest parser (sat\_latency/pipeline/extract.py)\<close>

definition INGEST_FIELDS :: "string list" where
  "INGEST_FIELDS =
     [''topic'', ''band'', ''coverage'', ''ingest_source'', ''instrument'',
      ''satellite_ID'', ''section'', ''reception_time'', ''start_time'',
      ''end_time'', ''create_time'']"

text \<open>\<open>_missing_()\<close> of amqpfind, encoded: the bytes of the sentinel.\<close>

definition AMQPFIND_MISSING :: "char list" where
  "AMQPFIND_MISSING = ''?UNKNOWN?''"

definition INGEST_SEPARATOR :: char where
  "INGEST_SEPARATOR = CHR ''!''"

definition NEWLINE :: char where
  "NEWLINE = CHR 0x0A"

text \<open>
  \<open>fields_from_line\<close>: the stream is read one byte at a time (the second argument is
  what is left to read); \<open>p_index\<close> and \<open>p_size\<close> delimit the pending field, which
  \<open>read_at(p_size, p_index)\<close> cuts out of the line when a separator or a newline is
  read. At the end of the stream the generator returns: pending bytes that no
  separator closed are not yielded.
\<close>

fun fields_scan :: "char list \<Rightarrow> char list \<Rightarrow> nat \<Rightarrow> nat \<Rightarrow> char list option list" where
  "fields_scan line [] p_index p_size = []"
| "fields_scan line (byte # rest) p_index p_size =
     (if byte = INGEST_SEPARATOR \<or> byte = NEWLINE then
        (let field = take p_size (drop p_index line)
         in (if field = [] \<or> field = AMQPFIND_MISSING then None else Some field))
        # fields_scan line rest (p_index + p_size + 1) 0
      else fields_scan line rest p_index (p_size + 1))"

definition fields_from_line :: "char list \<Rightarrow> char list option list" where
  "fields_from_line line = fields_scan line line 0 0"

text \<open>
  \<open>read_input\<close>: one dictionary per line that \<open>readline\<close> returns before the empty
  bytes object; the argument is that list of lines. The dictionary comprehension over
  \<open>zip(INGEST_FIELDS, fields_from_line(line))\<close> is an association list whose keys are
  distinct; \<open>zip\<close> stops at the shorter of the two.
\<close>

definition read_input :: "char list list \<Rightarrow> (string \<times> char list option) list list" where
  "read_input lines = map (\<lambda>line. zip INGEST_FIELDS (fields_from_line line)) lines"

section \<open>Exit status of the fan-in tool (amqpfind.py)\<close>

text \<open>
  The idle timer is \<open>alarm(opts.timeout)\<close>, re-armed by every emit; when it expires
  \<open>handle_timeout\<close> raises \<open>TimeoutException\<close> inside the receive loop. The
  argument of the two functions below is how the receive loop ended: \<open>None\<close> when it
  returned, \<open>Some e\<close> when the exception \<open>e\<close> left it. The result is the return
  code that \<open>main\<close> hands to \<open>sys.exit\<close>, or the exception that neither handler
  catches.
\<close>

definition multi_main :: "py_error option \<Rightarrow> py_error + int" where
  "multi_main loop_end =
     (case loop_end of
        None \<Rightarrow> Inr 0
      | Some KeyboardInterrupt \<Rightarrow> Inr 0
      | Some TimeoutException \<Rightarrow> Inr 2
      | Some e \<Rightarrow> Inl e)"

definition single_main :: "py_error option \<Rightarrow> py_error + int" where
  "single_main loop_end =
     (case loop_end of
        None \<Rightarrow> Inr 0
      | Some KeyboardInterrupt \<Rightarrow> Inr 0
      | Some TimeoutException \<Rightarrow> Inr 1
      | Some e \<Rightarrow> Inl e)"

text \<open>
  The end of \<open>main\<close>: one server is the classical configuration, which refuses the
  window options; more than one server runs the multi-process fan-in.
\<close>

definition main_rc :: "nat \<Rightarrow> bool \<Rightarrow> py_error option \<Rightarrow> py_error + int" where
  "main_rc n_servers dedup_opts loop_end =
     (if n_servers = 1 then (if dedup_opts then Inr 1 else single_main loop_end)
      else multi_main loop_end)"

section \<open>Partitioned writer (sat\_latency/pipeline/load.py)\<close>

text \<open>
  \<open>BatchWriter\<close> keeps an \<open>OrderedDict\<close> from dates to pairs of an open file and
  its stream writer. The model numbers the files in the order they are opened and keeps
  one number per pair (the handle); the dictionary is an association list in insertion
  order. What the writer does to the file system is recorded, in program order, as a
  list of events; the operations on files are taken to succeed. \<open>'d\<close> is the type of
  dates and \<open>'b\<close> that of record batches.
\<close>

datatype ('d, 'b) file_event =
  Open 'd nat | WriterClose nat | Flush nat | FileClose nat | WriteBatch nat 'b

record ('d, 'b) batch_writer =
  writer_pool :: "('d \<times> nat) list"
  max_size :: int
  next_handle :: nat
  events :: "('d, 'b) file_event list"

definition BatchWriter :: "int \<Rightarrow> ('d, 'b) batch_writer" where
  "BatchWriter pool_size =
     \<lparr>writer_pool = [], max_size = pool_size, next_handle = 0, events = []\<rparr>"

text \<open>\<open>_close_date\<close>: \<open>writer.close()\<close>, \<open>file.flush()\<close>, \<open>file.close()\<close>.\<close>

definition close_date :: "('d, 'b) batch_writer \<Rightarrow> 'd \<Rightarrow> ('d, 'b) batch_writer" where
  "close_date w date =
     (case map_of (writer_pool w) date of
        None \<Rightarrow> w
      | Some h \<Rightarrow> w\<lparr>events := events w @ [WriterClose h, Flush h, FileClose h]\<rparr>)"

text \<open>
  \<open>OrderedDict.move_to_end(date)\<close>; it is only called for a date that \<open>get\<close> has
  just found.
\<close>

definition move_to_end :: "'d \<Rightarrow> ('d \<times> nat) list \<Rightarrow> ('d \<times> nat) list" where
  "move_to_end date pool =
     (case map_of pool date of
        None \<Rightarrow> pool
      | Some h \<Rightarrow> filter (\<lambda>q. fst q \<noteq> date) pool @ [(date, h)])"

text \<open>
  \<open>_get_writer\<close>. On a miss the new file is opened first; then, if the pool is full,
  the first date of the dictionary is closed and popped (\<open>next(iter(...))\<close> raises
  \<open>StopIteration\<close> on an empty dictionary); the assignment to the dictionary, which
  admits the new date at the end, comes last.
\<close>

definition get_writer ::
  "('d, 'b) batch_writer \<Rightarrow> 'd \<Rightarrow> py_error + (('d, 'b) batch_writer \<times> nat)" where
  "get_writer w date =
     (case map_of (writer_pool w) date of
        Some h \<Rightarrow> Inr (w\<lparr>writer_pool := move_to_end date (writer_pool w)\<rparr>, h)
      | None \<Rightarrow>
          (let h = next_handle w;
               w1 = w\<lparr>next_handle := h + 1, events := events w @ [Open date h]\<rparr>
           in if int (length (writer_pool w1)) \<ge> max_size w1 then
                (case writer_pool w1 of
                   [] \<Rightarrow> Inl StopIteration
                 | (old_date, _) # _ \<Rightarrow>
                     (let w2 = close_date w1 old_date;
                          w3 = w2\<lparr>writer_pool := tl (writer_pool w2)\<rparr>
                      in Inr (w3\<lparr>writer_pool := AList.update date h (writer_pool w3)\<rparr>, h)))
              else Inr (w1\<lparr>writer_pool := AList.update date h (writer_pool w1)\<rparr>, h)))"

definition write_batch ::
  "('d, 'b) batch_writer \<Rightarrow> 'b \<Rightarrow> 'd \<Rightarrow> py_error + ('d, 'b) batch_writer" where
  "write_batch w batch date =
     (case get_writer w date of
        Inl e \<Rightarrow> Inl e
      | Inr (w', h) \<Rightarrow> Inr (w'\<lparr>events := events w' @ [WriteBatch h batch]\<rparr>))"

text \<open>A sequence of \<open>write_batch\<close> calls; an exception ends it.\<close>

fun write_batches ::
  "('d, 'b) batch_writer \<Rightarrow> ('b \<times> 'd) list \<Rightarrow> py_error + ('d, 'b) batch_writer" where
  "write_batches w [] = Inr w"
| "write_batches w ((batch, date) # calls) =
     (case write_batch w batch date of
        Inl e \<Rightarrow> Inl e
      | Inr w' \<Rightarrow> write_batches w' calls)"

text \<open>The handles that an event list leaves open: opened and not closed since.\<close>

fun apply_event :: "('d, 'b) file_event \<Rightarrow> nat set \<Rightarrow> nat set" where
  "apply_event (Open d h) S = insert h S"
| "apply_event (FileClose h) S = S - {h}"
| "apply_event (WriterClose h) S = S"
| "apply_event (Flush h) S = S"
| "apply_event (WriteBatch h b) S = S"

definition open_files :: "('d, 'b) file_event list \<Rightarrow> nat set" where
  "open_files evs = fold apply_event evs {}"

text \<open>The last \<open>n\<close> elements of a list (all of it when it is shorter).\<close>

definition last_n :: "nat \<Rightarrow> 'a list \<Rightarrow> 'a list" where
  "last_n n xs = drop (length xs - n) xs"

text \<open>
  The invariant of the writer after the dates \<open>ds\<close> have been written to, in this
  order: the keys of the pool are a suffix of \<open>remdups ds\<close>, the dates ordered by
  their last use, and a proper suffix only when the pool is full.
\<close>

definition writer_inv :: "int \<Rightarrow> 'd list \<Rightarrow> ('d, 'b) batch_writer \<Rightarrow> bool" where
  "writer_inv n ds w \<longleftrightarrow>
     max_size w = n
     \<and> distinct (map fst (writer_pool w))
     \<and> distinct (map snd (writer_pool w))
     \<and> int (length (writer_pool w)) \<le> n
     \<and> (\<exists>A. remdups ds = A @ map fst (writer_pool w)
            \<and> (A \<noteq> [] \<longrightarrow> int (length (writer_pool w)) = n))
     \<and> open_files (events w) = snd ` set (writer_pool w)
     \<and> (\<forall>h \<in> snd ` set (writer_pool w). h < next_handle w)"

section \<open>Emitter (amqpfind.py: json\_emit)\<close>

text \<open>
  The values of a payload: the values of decoded JSON (floating-point numbers are not
  modelled), and \<open>PObject\<close> for a Python object that is not a JSON value, known
  by a number only (the bound method that an attribute access returns, for one). A
  payload (a \<open>dict\<close>) is an association list in insertion order with distinct
  keys; assignment to a key is \<open>AList.update\<close>, which overwrites in place or
  appends.
\<close>

datatype pyval =
  PNone | PBool bool | PInt int | PStr string
  | PList "pyval list" | PDict "(string \<times> pyval) list" | PObject nat

type_synonym payload = "(string \<times> pyval) list"

text \<open>
  A format string is taken as \<open>string.Formatter().parse\<close> yields it: one tuple per
  part, of the literal text and the replacement field that follows it (\<open>None\<close> for
  trailing text). A field is the field name as written (\<open>a\<close>, \<open>a.b\<close>, \<open>a[k]\<close>),
  the format specification (empty when there is none) and the conversion character.
  A malformed format string raises \<open>ValueError\<close> whatever the payload.
\<close>

record tfield =
  field_name :: string
  format_spec :: string
  conversion :: "char option"

type_synonym template = "(string \<times> tfield option) list"

text \<open>
  The built-in functions of Python that formatting calls on a value are parameters:
  \<open>str\<close> of a value that is not a string, \<open>repr\<close>, \<open>ascii\<close>, \<open>format\<close> with
  a format specification that is not empty (given what the replacement fields nested
  in the specification are looked up in, and the error of a positional one),
  \<open>getattr\<close>, indexing of an object that is not a JSON value, and
  \<open>json.dumps\<close>. The first three raise on no value, as is the case for JSON
  values.
\<close>

record pyrt =
  rt_str :: "pyval \<Rightarrow> string"
  rt_repr :: "pyval \<Rightarrow> string"
  rt_ascii :: "pyval \<Rightarrow> string"
  rt_format :: "(string \<Rightarrow> py_error + pyval) \<Rightarrow> py_error \<Rightarrow> pyval \<Rightarrow> string \<Rightarrow> py_error + string"
  rt_getattr :: "pyval \<Rightarrow> string \<Rightarrow> py_error + pyval"
  rt_getitem :: "nat \<Rightarrow> string \<Rightarrow> py_error + pyval"
  rt_dumps :: "pyval \<Rightarrow> py_error + string"

text \<open>
\<open>_missing_()\<close>, the default factory of the \<open>defaultdict\<close>.
\<close>

definition missing :: pyval where
  "missing = PStr ''?UNKNOWN?''"

text \<open>
  \<open>discontent[k]\<close> once \<open>discontent.update(content)\<close> has run: the payload's
  value, or the default for an absent key.
\<close>

definition discontent :: "payload \<Rightarrow> string \<Rightarrow> pyval" where
  "discontent content k = (case map_of content k of Some v \<Rightarrow> v | None \<Rightarrow> missing)"

text \<open>
  The formatter reads a name or an index made of decimal digits as an integer
  (\<open>get_integer\<close> of CPython): \<open>None\<close> for the empty string and at the first
  character that is not a digit, \<open>ValueError\<close> once the digits read so far exceed
  the largest index (of a 64-bit build).
\<close>

definition PY_SSIZE_T_MAX :: nat where
  "PY_SSIZE_T_MAX = 2 ^ 63 - 1"

fun get_integer_from :: "nat \<Rightarrow> string \<Rightarrow> py_error + nat option" where
  "get_integer_from accumulator [] = Inr (Some accumulator)"
| "get_integer_from accumulator (c # s) =
     (if c \<notin> set ''0123456789'' then Inr None
      else if accumulator > (PY_SSIZE_T_MAX - (of_char c - 48)) div 10 then Inl ValueError
      else get_integer_from (accumulator * 10 + (of_char c - 48)) s)"

definition get_integer :: "string \<Rightarrow> py_error + nat option" where
  "get_integer s = (if s = [] then Inr None else get_integer_from 0 s)"

text \<open>
  \<open>obj[idx]\<close> as the formatter does it, for an index that is not empty: an integer
  index into a string or a list, a string key into a dictionary (the keys of a JSON
  object are strings, so an integer key is absent). Indexing \<open>None\<close>, a Boolean or
  an integer, or a string or a list with a string, raises \<open>TypeError\<close>.
\<close>

definition getitem :: "pyrt \<Rightarrow> pyval \<Rightarrow> string \<Rightarrow> py_error + pyval" where
  "getitem rt obj idx =
     (case get_integer idx of
        Inl e \<Rightarrow> Inl e
      | Inr (Some n) \<Rightarrow>
          (case obj of
             PStr s \<Rightarrow> if n < length s then Inr (PStr [s ! n]) else Inl IndexError
           | PList xs \<Rightarrow> if n < length xs then Inr (xs ! n) else Inl IndexError
           | PDict d \<Rightarrow> Inl KeyError
           | PObject ob \<Rightarrow> rt_getitem rt ob idx
           | _ \<Rightarrow> Inl TypeError)
      | Inr None \<Rightarrow>
          (case obj of
             PDict d \<Rightarrow> (case map_of d idx of Some v \<Rightarrow> Inr v | None \<Rightarrow> Inl KeyError)
           | PObject ob \<Rightarrow> rt_getitem rt ob idx
           | _ \<Rightarrow> Inl TypeError))"

text \<open>
  The rest of a field name, after its first part, is read from left to right and
  applied to the object as it is read (\<open>FieldNameIterator\<close> of CPython): \<open>.name\<close>
  is \<open>getattr\<close>, \<open>[index]\<close> is indexing. An empty name or index, a missing
  \<open>]\<close> and a character other than \<open>.\<close> or \<open>[\<close> after a \<open>]\<close> raise
  \<open>ValueError\<close>.
\<close>

datatype scan = Next | Attribute string | Item string

fun field_name_rest :: "pyrt \<Rightarrow> scan \<Rightarrow> pyval \<Rightarrow> string \<Rightarrow> py_error + pyval" where
  "field_name_rest rt Next obj [] = Inr obj"
| "field_name_rest rt Next obj (c # s) =
     (if c = CHR ''.'' then field_name_rest rt (Attribute []) obj s
      else if c = CHR ''['' then field_name_rest rt (Item []) obj s
      else Inl ValueError)"
| "field_name_rest rt (Attribute name) obj [] =
     (if name = [] then Inl ValueError else rt_getattr rt obj name)"
| "field_name_rest rt (Attribute name) obj (c # s) =
     (if c = CHR ''.'' \<or> c = CHR ''['' then
        (if name = [] then Inl ValueError
         else case rt_getattr rt obj name of
                Inl e \<Rightarrow> Inl e
              | Inr v \<Rightarrow>
                  field_name_rest rt (if c = CHR ''.'' then Attribute [] else Item []) v s)
      else field_name_rest rt (Attribute (name @ [c])) obj s)"
| "field_name_rest rt (Item name) obj [] = Inl ValueError"
| "field_name_rest rt (Item name) obj (c # s) =
     (if c = CHR '']'' then
        (if name = [] then Inl ValueError
         else case getitem rt obj name of
                Inl e \<Rightarrow> Inl e
              | Inr v \<Rightarrow> field_name_rest rt Next v s)
      else field_name_rest rt (Item (name @ [c])) obj s)"

text \<open>
  \<open>get_field\<close>: the first part of the field name, up to the first \<open>.\<close> or
  \<open>[\<close>, is looked up in the arguments, then the rest is applied. An empty or
  numeric first part is positional, and there are no positional arguments: the
  error for that is \<open>ValueError\<close> under \<open>format_map\<close> and \<open>IndexError\<close> under
  \<open>format\<close>.
\<close>

definition get_field ::
  "pyrt \<Rightarrow> (string \<Rightarrow> py_error + pyval) \<Rightarrow> py_error \<Rightarrow> string \<Rightarrow> py_error + pyval" where
  "get_field rt lookup positional name =
     (let first = takeWhile (\<lambda>c. c \<noteq> CHR ''.'' \<and> c \<noteq> CHR ''['') name;
          rest = dropWhile (\<lambda>c. c \<noteq> CHR ''.'' \<and> c \<noteq> CHR ''['') name
      in case get_integer first of
           Inl e \<Rightarrow> Inl e
         | Inr idx \<Rightarrow>
             if first = [] \<or> idx \<noteq> None then Inl positional
             else (case lookup first of
                     Inl e \<Rightarrow> Inl e
                   | Inr obj \<Rightarrow> field_name_rest rt Next obj rest))"

text \<open>
  The \<open>str\<close> of a string is the string. The conversions \<open>!r\<close>, \<open>!s\<close> and
  \<open>!a\<close>; any other conversion character raises \<open>ValueError\<close>.
\<close>

fun py_str :: "pyrt \<Rightarrow> pyval \<Rightarrow> string" where
  "py_str rt (PStr s) = s"
| "py_str rt v = rt_str rt v"

definition do_conversion :: "pyrt \<Rightarrow> char option \<Rightarrow> pyval \<Rightarrow> py_error + pyval" where
  "do_conversion rt conv obj =
     (case conv of
        None \<Rightarrow> Inr obj
      | Some c \<Rightarrow>
          if c = CHR ''r'' then Inr (PStr (rt_repr rt obj))
          else if c = CHR ''s'' then Inr (PStr (py_str rt obj))
          else if c = CHR ''a'' then Inr (PStr (rt_ascii rt obj))
          else Inl ValueError)"

text \<open>
  One replacement field: the object, converted, then formatted; \<open>format(v, '')\<close> is
  \<open>str(v)\<close>.
\<close>

definition render_field ::
  "pyrt \<Rightarrow> (string \<Rightarrow> py_error + pyval) \<Rightarrow> py_error \<Rightarrow> tfield \<Rightarrow> py_error + string" where
  "render_field rt lookup positional f =
     (case get_field rt lookup positional (field_name f) of
        Inl e \<Rightarrow> Inl e
      | Inr obj \<Rightarrow>
          (case do_conversion rt (conversion f) obj of
             Inl e \<Rightarrow> Inl e
           | Inr v \<Rightarrow>
               if format_spec f = [] then Inr (py_str rt v)
               else rt_format rt lookup positional v (format_spec f)))"

fun build_string ::
  "pyrt \<Rightarrow> (string \<Rightarrow> py_error + pyval) \<Rightarrow> py_error \<Rightarrow> template \<Rightarrow> py_error + string" where
  "build_string rt lookup positional [] = Inr []"
| "build_string rt lookup positional ((literal_text, None) # parts) =
     (case build_string rt lookup positional parts of
        Inl e \<Rightarrow> Inl e
      | Inr r \<Rightarrow> Inr (literal_text @ r))"
| "build_string rt lookup positional ((literal_text, Some f) # parts) =
     (case render_field rt lookup positional f of
        Inl e \<Rightarrow> Inl e
      | Inr s \<Rightarrow>
          (case build_string rt lookup positional parts of
             Inl e \<Rightarrow> Inl e
           | Inr r \<Rightarrow> Inr (literal_text @ s @ r)))"

text \<open>
  \<open>format_str.format_map(discontent)\<close>: every name resolves. And
  \<open>format_str.format(**kwargs)\<close>: a name that is no keyword raises
  \<open>KeyError\<close>; the keyword \<open>None\<close> is never looked up.
\<close>

definition format_map :: "pyrt \<Rightarrow> payload \<Rightarrow> template \<Rightarrow> py_error + string" where
  "format_map rt content parts =
     build_string rt (\<lambda>k. Inr (discontent content k)) ValueError parts"

definition format_kwargs ::
  "pyrt \<Rightarrow> (string option \<times> pyval) list \<Rightarrow> template \<Rightarrow> py_error + string" where
  "format_kwargs rt kwargs parts =
     build_string rt
       (\<lambda>k. case map_of kwargs (Some k) of Some v \<Rightarrow> Inr v | None \<Rightarrow> Inl KeyError)
       IndexError parts"

text \<open>
  \<open>dict((part[1], discontent[part[1]]) for part in parts)\<close>: one entry per part,
  under the field name as written, or under \<open>None\<close> for trailing text.
\<close>

definition upheaval :: "payload \<Rightarrow> template \<Rightarrow> (string option \<times> pyval) list" where
  "upheaval content parts =
     map (\<lambda>part. case snd part of
                   None \<Rightarrow> (None, missing)
                 | Some f \<Rightarrow> (Some (field_name f), discontent content (field_name f))) parts"

text \<open>
  The option \<open>-j\<close>: \<open>?\<close>, \<open>*\<close> or a template; \<open>None\<close> when the option is
  absent. What \<open>json_emit\<close> does: it prints a formatted line; nothing, after the
  logged \<open>KeyError\<close>; the payload's keys and values between two banner lines (whose
  layout is not modelled); or it writes a text to the standard output. \<open>Called\<close> is
  the user callback that replaces \<open>json_emit\<close>.
\<close>

datatype format_str = Pretty | NullJson | Template template

datatype emitted =
  Printed string | Skipped | PrettyPrinted payload | Written string
  | Called string payload

text \<open>
  \<open>json_emit\<close>. An \<open>AttributeError\<close> out of \<open>format_map\<close> enters the handler
  that formats again with \<open>format\<close>; a \<open>KeyError\<close> from anywhere is logged and the
  message skipped; every other exception leaves the function.
\<close>

definition json_emit ::
  "pyrt \<Rightarrow> string \<Rightarrow> payload \<Rightarrow> format_str option \<Rightarrow> py_error + emitted" where
  "json_emit rt topic content format_str =
     (case
        (case format_str of
           Some (Template parts) \<Rightarrow>
             (case format_map rt content parts of
                Inl AttributeError \<Rightarrow>
                  (case format_kwargs rt (upheaval content parts) parts of
                     Inl e \<Rightarrow> Inl e
                   | Inr s \<Rightarrow> Inr (Printed s))
              | Inl e \<Rightarrow> Inl e
              | Inr s \<Rightarrow> Inr (Printed s))
         | Some Pretty \<Rightarrow> Inr (PrettyPrinted content)
         | Some NullJson \<Rightarrow>
             (case rt_dumps rt (PList [PStr topic, PDict content]) of
                Inl e \<Rightarrow> Inl e
              | Inr txt \<Rightarrow> Inr (Written (txt @ [CHR 0x00])))
         | None \<Rightarrow>
             (case rt_dumps rt (PDict content) of
                Inl e \<Rightarrow> Inl e
              | Inr loco \<Rightarrow>
                  Inr (Written (topic @ '': '' @ rt_repr rt (PStr loco) @ [CHR 0x0A]))))
      of
        Inl KeyError \<Rightarrow> Inr Skipped
      | r \<Rightarrow> r)"

section \<open>Transforms and dispatcher (amqpfind.py)\<close>

text \<open>
  A compiled user expression is the function from the dictionary it is evaluated on
  (the locals of \<open>eval\<close>) to its value or the exception it raises; the evaluation
  namespace is part of that function. Expressions do not mutate the dictionary.
\<close>

type_synonym expr = "payload \<Rightarrow> py_error + pyval"

text \<open>
\<open>Transforms.__call__\<close>: every rule reads \<open>old_msg\<close> and writes \<open>new_msg\<close>.
\<close>

fun transforms_loop :: "(string \<times> expr) list \<Rightarrow> payload \<Rightarrow> payload \<Rightarrow> py_error + payload" where
  "transforms_loop [] old_msg new_msg = Inr new_msg"
| "transforms_loop ((key, code) # rules) old_msg new_msg =
     (case code old_msg of
        Inl e \<Rightarrow> Inl e
      | Inr new_val \<Rightarrow> transforms_loop rules old_msg (AList.update key new_val new_msg))"

definition Transforms_call :: "(string \<times> expr) list \<Rightarrow> payload \<Rightarrow> py_error + payload" where
  "Transforms_call rules msg = transforms_loop rules msg msg"

text \<open>
  A message is a dictionary object: its identity (\<open>id(msg)\<close>, which
  \<open>_dismiss_active_key\<close> uses as a key) and its content. A queue entry is
  \<open>(when, host, routing_key, msg)\<close>; times are microseconds.
\<close>

type_synonym msgobj = "nat \<times> payload"

type_synonym candidate = "int \<times> string \<times> string \<times> msgobj"

text \<open>
  The option \<open>-s\<close>: a \<open>lambda a, b\<close> comparator, or a scalar expression. A scalar
  score is an integer or \<open>None\<close>; other comparable values are not modelled.
  \<open>score_code\<close> is \<open>None\<close>, \<open>False\<close> (a comparator was given) or the compiled
  expression.
\<close>

datatype score_src =
  Lambda "msgobj \<Rightarrow> msgobj \<Rightarrow> py_error + msgobj"
  | Scalar "payload \<Rightarrow> py_error + int option"

datatype score_code = SNone | SFalse | SCode "payload \<Rightarrow> py_error + int option"

text \<open>
  The options the dispatcher reads. \<open>'k\<close> is the type of hashable key values other
  than \<open>None\<close>; a key is a \<open>'k option\<close>, with \<open>None\<close> for Python's \<open>None\<close>.
\<close>

record 'k opts =
  o_timeout :: int
  o_key :: "(payload \<Rightarrow> py_error + 'k option) option"
  o_score :: "score_src option"
  o_json :: "format_str option"
  o_window :: "int option"
  o_callback :: "(string \<Rightarrow> payload \<Rightarrow> py_error option) option"

record 'k dispatcher =
  transforms :: "(string \<times> expr) list option"
  key_code :: "(payload \<Rightarrow> py_error + 'k option) option"
  score_code :: score_code
  compare_fn :: "(msgobj \<Rightarrow> msgobj \<Rightarrow> py_error + msgobj) option"
  active_keys :: "('k option \<times> int) list option"
  msg_buffer :: "('k option \<times> candidate list) list option"
  horizon :: "int option"
  json_format_str :: "format_str option"
  callback :: "(string \<Rightarrow> payload \<Rightarrow> py_error option) option"
  timeout :: "int option"
  extra_default_payload :: payload

text \<open>
  What the runtime supplies to one call of the dispatcher: the reading of the clock in
  \<open>_clean_expired\<close> and in \<open>max_sleep_til_next_window\<close>, the ISO text of the
  clock for the default metadata, the permutation that \<open>random.shuffle\<close> applies,
  and the built-in functions that \<open>json_emit\<close> calls.
\<close>

record env =
  t_clean :: int
  t_sleep :: int
  t_iso :: string
  shuffle :: "msgobj list \<Rightarrow> msgobj list"
  runtime :: pyrt

definition DEFAULT_HORIZON_SEC :: int where
  "DEFAULT_HORIZON_SEC = 5000000"

text \<open>
\<open>Dispatcher.__init__\<close>.
\<close>

definition Dispatcher ::
  "(string \<times> expr) list option \<Rightarrow> 'k opts \<Rightarrow> payload \<Rightarrow> 'k dispatcher" where
  "Dispatcher rules opts extra =
     \<lparr>transforms = rules,
      key_code = o_key opts,
      score_code =
        (case o_score opts of
           None \<Rightarrow> SNone
         | Some (Lambda f) \<Rightarrow> SFalse
         | Some (Scalar e) \<Rightarrow> SCode e),
      compare_fn = (case o_score opts of Some (Lambda f) \<Rightarrow> Some f | _ \<Rightarrow> None),
      active_keys = (case o_key opts of None \<Rightarrow> None | Some kc \<Rightarrow> Some []),
      msg_buffer = (case o_score opts of None \<Rightarrow> None | Some sc \<Rightarrow> Some []),
      horizon =
        (case o_window opts of
           Some w \<Rightarrow> Some w
         | None \<Rightarrow> (case o_key opts of None \<Rightarrow> None | Some kc \<Rightarrow> Some DEFAULT_HORIZON_SEC)),
      json_format_str = o_json opts,
      callback = o_callback opts,
      timeout = (if o_timeout opts \<noteq> 0 then Some (o_timeout opts) else None),
      extra_default_payload = extra\<rparr>"

text \<open>
\<open>if k not in msg: msg[k] = v\<close>.
\<close>

definition setdefault :: "string \<Rightarrow> pyval \<Rightarrow> payload \<Rightarrow> payload" where
  "setdefault k v msg = (if k \<in> fst ` set msg then msg else AList.update k v msg)"

definition add_default_metadata :: "'k dispatcher \<Rightarrow> env \<Rightarrow> string \<Rightarrow> payload \<Rightarrow> payload" where
  "add_default_metadata d e topic msg =
     fold (\<lambda>(k, v). setdefault k v) (extra_default_payload d)
       (setdefault ''__reception_time__'' (PStr (t_iso e))
          (setdefault ''__topic__'' (PStr topic) msg))"

text \<open>
  \<open>Dispatcher.emit\<close>: default metadata, then the transforms, then the callback or
  \<open>json_emit\<close>. Re-arming the idle alarm is not modelled.
\<close>

definition emit :: "'k dispatcher \<Rightarrow> env \<Rightarrow> string \<Rightarrow> payload \<Rightarrow> py_error + emitted" where
  "emit d e topic msg =
     (let msg1 = add_default_metadata d e topic msg in
      case (case transforms d of None \<Rightarrow> Inr msg1 | Some rules \<Rightarrow> Transforms_call rules msg1) of
        Inl err \<Rightarrow> Inl err
      | Inr msg2 \<Rightarrow>
          (case callback d of
             Some cb \<Rightarrow> (case cb topic msg2 of Some err \<Rightarrow> Inl err | None \<Rightarrow> Inr (Called topic msg2))
           | None \<Rightarrow> json_emit (runtime e) topic msg2 (json_format_str d)))"

text \<open>
  \<open>key_for_msg\<close> and \<open>score_for_msg\<close>: an exception in the expression is logged
  and the result is \<open>None\<close>.
\<close>

definition key_for_msg :: "'k dispatcher \<Rightarrow> payload \<Rightarrow> 'k option" where
  "key_for_msg d msg =
     (case key_code d of
        None \<Rightarrow> None
      | Some kc \<Rightarrow> (case kc msg of Inl err \<Rightarrow> None | Inr k \<Rightarrow> k))"

definition score_for_msg :: "'k dispatcher \<Rightarrow> payload \<Rightarrow> int option" where
  "score_for_msg d msg =
     (case score_code d of
        SCode sc \<Rightarrow> (case sc msg of Inl err \<Rightarrow> None | Inr s \<Rightarrow> s)
      | _ \<Rightarrow> None)"

text \<open>
  \<open>compare\<close>: the user's comparator when one was given (it replaces the method);
  otherwise \<open>msg1 if s1 >= s2 else msg2\<close>, where \<open>>=\<close> raises \<open>TypeError\<close> in
  Python 3 when an operand is \<open>None\<close>.
\<close>

definition compare :: "'k dispatcher \<Rightarrow> msgobj \<Rightarrow> msgobj \<Rightarrow> py_error + msgobj" where
  "compare d msg1 msg2 =
     (case compare_fn d of
        Some f \<Rightarrow> f msg1 msg2
      | None \<Rightarrow>
          (case (score_for_msg d (snd msg1), score_for_msg d (snd msg2)) of
             (Some s1, Some s2) \<Rightarrow> Inr (if s1 \<ge> s2 then msg1 else msg2)
           | _ \<Rightarrow> Inl TypeError))"

text \<open>
\<open>functools.reduce\<close> without an initial value.
\<close>

fun reduce_from :: "('a \<Rightarrow> 'a \<Rightarrow> py_error + 'a) \<Rightarrow> 'a \<Rightarrow> 'a list \<Rightarrow> py_error + 'a" where
  "reduce_from f acc [] = Inr acc"
| "reduce_from f acc (x # xs) =
     (case f acc x of Inl err \<Rightarrow> Inl err | Inr acc' \<Rightarrow> reduce_from f acc' xs)"

fun reduce :: "('a \<Rightarrow> 'a \<Rightarrow> py_error + 'a) \<Rightarrow> 'a list \<Rightarrow> py_error + 'a" where
  "reduce f [] = Inl TypeError"
| "reduce f (x # xs) = reduce_from f x xs"

definition choose_msg :: "'k dispatcher \<Rightarrow> env \<Rightarrow> msgobj list \<Rightarrow> py_error + msgobj" where
  "choose_msg d e messages =
     (let messages = shuffle e messages in
      case score_code d of
        SNone \<Rightarrow> (case messages of [] \<Rightarrow> Inl IndexError | m # ms \<Rightarrow> Inr m)
      | _ \<Rightarrow> reduce (compare d) messages)"

text \<open>
  \<open>_dismiss_active_key\<close>. Reading \<open>self.msg_buffer[key]\<close> of the
  \<open>defaultdict\<close> creates an empty entry when the key is absent. \<open>dict\<close> of a list
  of pairs keeps the last pair of a repeated key.
\<close>

definition dismiss_active_key ::
  "'k dispatcher \<Rightarrow> env \<Rightarrow> 'k option \<Rightarrow> py_error + ('k dispatcher \<times> emitted list)" where
  "dismiss_active_key d e key =
     (case msg_buffer d of
        None \<Rightarrow> Inr (d, [])
      | Some buf \<Rightarrow>
          (case map_of buf key of
             None \<Rightarrow> Inr (d\<lparr>msg_buffer := Some (AList.update key [] buf)\<rparr>, [])
           | Some [] \<Rightarrow> Inr (d, [])
           | Some (c # cs) \<Rightarrow>
               (let competing_msgs = c # cs;
                    d1 = d\<lparr>msg_buffer := Some (AList.delete key buf)\<rparr>;
                    routing_key_lut =
                      map_of (rev (map (\<lambda>(when, host, routing_key, msg).
                                          (fst msg, (host, routing_key))) competing_msgs))
                in case choose_msg d1 e (map (\<lambda>(when, host, routing_key, msg). msg) competing_msgs) of
                     Inl err \<Rightarrow> Inl err
                   | Inr winner \<Rightarrow>
                       (case routing_key_lut (fst winner) of
                          None \<Rightarrow> Inl KeyError
                        | Some (host, routing_key) \<Rightarrow>
                            (case emit d1 e routing_key (snd winner) of
                               Inl err \<Rightarrow> Inl err
                             | Inr out \<Rightarrow> Inr (d1, [out]))))))"

text \<open>
  \<open>_clean_expired\<close>: the keys whose window has expired are dismissed in the order
  of the dictionary, then deleted from \<open>active_keys\<close>.
\<close>

fun dismiss_all ::
  "'k dispatcher \<Rightarrow> env \<Rightarrow> 'k option list \<Rightarrow> py_error + ('k dispatcher \<times> emitted list)" where
  "dismiss_all d e [] = Inr (d, [])"
| "dismiss_all d e (key # keys) =
     (case dismiss_active_key d e key of
        Inl err \<Rightarrow> Inl err
      | Inr (d1, outs1) \<Rightarrow>
          (case dismiss_all d1 e keys of
             Inl err \<Rightarrow> Inl err
           | Inr (d2, outs2) \<Rightarrow> Inr (d2, outs1 @ outs2)))"

definition clean_expired ::
  "'k dispatcher \<Rightarrow> env \<Rightarrow> py_error + ('k dispatcher \<times> emitted list)" where
  "clean_expired d e =
     (case active_keys d of
        None \<Rightarrow> Inl AttributeError
      | Some ak \<Rightarrow>
          (case horizon d of
             None \<Rightarrow> (if ak = [] then Inr (d, []) else Inl TypeError)
           | Some h \<Rightarrow>
               (let delset = map fst (filter (\<lambda>(key, when). when + h < t_clean e) ak) in
                case dismiss_all d e delset of
                  Inl err \<Rightarrow> Inl err
                | Inr (d1, outs) \<Rightarrow>
                    Inr (d1\<lparr>active_keys :=
                              Some (filter (\<lambda>(key, when). key \<notin> set delset) ak)\<rparr>, outs))))"

definition max_sleep_til_next_window :: "'k dispatcher \<Rightarrow> env \<Rightarrow> py_error + int option" where
  "max_sleep_til_next_window d e =
     (case active_keys d of
        None \<Rightarrow> Inr None
      | Some [] \<Rightarrow> Inr None
      | Some (a # ak) \<Rightarrow>
          (case horizon d of
             None \<Rightarrow> Inl TypeError
           | Some h \<Rightarrow> Inr (Some (max 0 (Min (snd ` set (a # ak)) + h - t_sleep e)))))"

definition dispatch_race ::
  "'k dispatcher \<Rightarrow> env \<Rightarrow> int \<Rightarrow> string \<Rightarrow> string \<Rightarrow> msgobj
     \<Rightarrow> py_error + ('k dispatcher \<times> emitted list)" where
  "dispatch_race d e when host routing_key msg =
     (let key = key_for_msg d (snd msg) in
      case active_keys d of
        None \<Rightarrow> Inl TypeError
      | Some ak \<Rightarrow>
          if key \<notin> fst ` set ak then
            (case emit d e routing_key (snd msg) of
               Inl err \<Rightarrow> Inl err
             | Inr out \<Rightarrow> Inr (d\<lparr>active_keys := Some (AList.update key when ak)\<rparr>, [out]))
          else Inr (d, []))"

definition dispatch_compete ::
  "'k dispatcher \<Rightarrow> env \<Rightarrow> int \<Rightarrow> string \<Rightarrow> string \<Rightarrow> msgobj
     \<Rightarrow> py_error + ('k dispatcher \<times> emitted list)" where
  "dispatch_compete d e when host routing_key msg =
     (let key = key_for_msg d (snd msg) in
      case active_keys d of
        None \<Rightarrow> Inl TypeError
      | Some ak \<Rightarrow>
          (case msg_buffer d of
             None \<Rightarrow> Inl TypeError
           | Some buf \<Rightarrow>
               (let ak1 = (if key \<notin> fst ` set ak then AList.update key when ak else ak);
                    old = (case map_of buf key of None \<Rightarrow> [] | Some cs \<Rightarrow> cs)
                in Inr (d\<lparr>active_keys := Some ak1,
                           msg_buffer := Some (AList.update key (old @ [(when, host, routing_key, msg)]) buf)\<rparr>,
                        []))))"

text \<open>
  \<open>Dispatcher.__call__\<close>, called with a queue entry or, after a queue timeout, with
  no message (\<open>Tick\<close>). The result is the new state, what was emitted, and the
  longest wait before the next call (\<open>None\<close>: indefinite).
\<close>

datatype delivery = Tick | Deliver int string string msgobj

definition call ::
  "'k dispatcher \<Rightarrow> env \<Rightarrow> delivery \<Rightarrow> py_error + ('k dispatcher \<times> emitted list \<times> int option)" where
  "call d e c =
     (case (case active_keys d of
              Some (a # ak) \<Rightarrow> clean_expired d e
            | _ \<Rightarrow> Inr (d, [])) of
        Inl err \<Rightarrow> Inl err
      | Inr (d1, outs) \<Rightarrow>
          (case c of
             Tick \<Rightarrow>
               (case max_sleep_til_next_window d1 e of
                  Inl err \<Rightarrow> Inl err
                | Inr w \<Rightarrow> Inr (d1, outs, w))
           | Deliver when host routing_key msg \<Rightarrow>
               (case key_code d1 of
                  Some kc \<Rightarrow>
                    (case (case score_code d1 of
                             SNone \<Rightarrow> dispatch_race d1 e when host routing_key msg
                           | _ \<Rightarrow> dispatch_compete d1 e when host routing_key msg) of
                       Inl err \<Rightarrow> Inl err
                     | Inr (d2, outs2) \<Rightarrow>
                         (case max_sleep_til_next_window d2 e of
                            Inl err \<Rightarrow> Inl err
                          | Inr w \<Rightarrow> Inr (d2, outs @ outs2, w)))
                | None \<Rightarrow>
                    (case emit d1 e routing_key (snd msg) of
                       Inl err \<Rightarrow> Inl err
                     | Inr out \<Rightarrow> Inr (d1, outs @ [out], None)))))"

text \<open>
  A sequence of calls, each in its environment, as the receive loop of \<open>multi_main\<close>
  makes them; the result keeps what each call emitted. An exception ends the loop.
\<close>

fun run ::
  "'k dispatcher \<Rightarrow> (env \<times> delivery) list \<Rightarrow> py_error + ('k dispatcher \<times> emitted list list)" where
  "run d [] = Inr (d, [])"
| "run d ((e, c) # rest) =
     (case call d e c of
        Inl err \<Rightarrow> Inl err
      | Inr (d1, outs, w) \<Rightarrow>
          (case run d1 rest of
             Inl err \<Rightarrow> Inl err
           | Inr (d2, outss) \<Rightarrow> Inr (d2, outs # outss)))"

section \<open>Specification-side definitions and example configurations\<close>

text \<open>
  A plain placeholder \<open>{name}\<close>: the field name is not empty, has no attribute
  or index access (none of the characters that end the first part of a field name or
  delimit a field), is not read as a number, and the field has no conversion and no
  format specification. The text the specification gives for one part of a template:
  the literal text, then the payload's value for the name, or the sentinel when the
  payload has no such key.
\<close>

definition plain :: "tfield \<Rightarrow> bool" where
  "plain f \<longleftrightarrow>
     field_name f \<noteq> [] \<and> set (field_name f) \<inter> set ''.[]!:{}'' = {}
     \<and> get_integer (field_name f) = Inr None
     \<and> conversion f = None \<and> format_spec f = []"

fun spec_render :: "pyrt \<Rightarrow> payload \<Rightarrow> string \<times> tfield option \<Rightarrow> string" where
  "spec_render r content (literal_text, None) = literal_text"
| "spec_render r content (literal_text, Some f) =
     literal_text @
     (case map_of content (field_name f) of
        Some v \<Rightarrow> py_str r v
      | None \<Rightarrow> ''?UNKNOWN?'')"

text \<open>
  Example expressions, evaluated on a decoded JSON payload. The key \<open>'' + sat\<close>:
  the string \<open>sat\<close>; for any other value, and for an absent name, which is
  \<open>None\<close> under \<open>NoneDict\<close>, the sum raises \<open>TypeError\<close>. The score
  \<open>defects + 0\<close>: the integer \<open>defects\<close> (a Boolean counts as 0 or 1); an
  absent name raises \<open>NameError\<close>, any other value \<open>TypeError\<close>. The
  expression \<open>1/0\<close>, and the constant \<open>'x'\<close>. On the payloads of the
  scenarios these are the key \<open>sat\<close> and the score \<open>defects\<close>. Keys and scores
  are evaluated on the message as delivered, which holds JSON values only.
\<close>

definition key_sat :: "payload \<Rightarrow> py_error + pyval option" where
  "key_sat msg =
     (case map_of msg ''sat'' of
        Some (PStr s) \<Rightarrow> Inr (Some (PStr s))
      | _ \<Rightarrow> Inl TypeError)"

definition score_defects :: "payload \<Rightarrow> py_error + int option" where
  "score_defects msg =
     (case map_of msg ''defects'' of
        None \<Rightarrow> Inl NameError
      | Some (PInt i) \<Rightarrow> Inr (Some i)
      | Some (PBool b) \<Rightarrow> Inr (Some (if b then 1 else 0))
      | Some v \<Rightarrow> Inl TypeError)"

definition expr_div_zero :: "payload \<Rightarrow> py_error + 'a" where
  "expr_div_zero msg = Inl ZeroDivisionError"

definition expr_x :: expr where
  "expr_x msg = Inr (PStr ''x'')"

text \<open>
  An example runtime, for payloads that hold strings where they are rendered and for
  the attribute \<open>b\<close>, which no JSON value has: \<open>getattr\<close> raises
  \<open>AttributeError\<close>. Its other functions are not reached by the examples.
\<close>

definition rt_example :: pyrt where
  "rt_example =
     \<lparr>rt_str = (\<lambda>v. []), rt_repr = (\<lambda>v. []), rt_ascii = (\<lambda>v. []),
      rt_format = (\<lambda>lookup positional v s. Inl ValueError),
      rt_getattr = (\<lambda>v name. Inl AttributeError),
      rt_getitem = (\<lambda>ob idx. Inl TypeError),
      rt_dumps = (\<lambda>v. Inl TypeError)\<rparr>"

definition env_at :: "int \<Rightarrow> env" where
  "env_at t = \<lparr>t_clean = t, t_sleep = t, t_iso = ''now'', shuffle = rev, runtime = rt_example\<rparr>"

text \<open>The templates \<open>{t}\<close>, \<open>{a[k]}\<close>, \<open>{a[0]}\<close> and \<open>{a.b}\<close>.\<close>

definition field :: "string \<Rightarrow> tfield" where
  "field name = \<lparr>field_name = name, format_spec = [], conversion = None\<rparr>"

definition template_t :: format_str where
  "template_t = Template [([], Some (field ''t''))]"

definition passthrough_opts :: "pyval opts" where
  "passthrough_opts =
     \<lparr>o_timeout = 0, o_key = None, o_score = None, o_json = Some template_t,
      o_window = None, o_callback = None\<rparr>"

definition race_opts :: "int \<Rightarrow> pyval opts" where
  "race_opts window =
     \<lparr>o_timeout = 0, o_key = Some key_sat, o_score = None, o_json = Some template_t,
      o_window = Some window, o_callback = None\<rparr>"

definition compete_opts :: "int \<Rightarrow> pyval opts" where
  "compete_opts window = (race_opts window)\<lparr>o_score := Some (Scalar score_defects)\<rparr>"

definition G16 :: "string \<Rightarrow> int \<Rightarrow> payload" where
  "G16 t n = [(''sat'', PStr ''G16''), (''t'', PStr t), (''defects'', PInt n)]"

definition score_only_opts :: "pyval opts" where
  "score_only_opts = passthrough_opts\<lparr>o_score := Some (Scalar score_defects)\<rparr>"

definition failing_key_opts :: "int \<Rightarrow> pyval opts" where
  "failing_key_opts window = (race_opts window)\<lparr>o_key := Some expr_div_zero\<rparr>"

text \<open>What a call emits when every event is passed through: one output per message.\<close>

fun n_messages :: "env \<times> delivery \<Rightarrow> nat" where
  "n_messages (e, Tick) = 0"
| "n_messages (e, Deliver when host routing_key msg) = 1"

text \<open>Scenario S1 of the specification, with a window of one second.\<close>

definition S1_calls :: "(env \<times> delivery) list" where
  "S1_calls =
     [(env_at 0, Deliver 0 ''A'' ''topic'' (1, G16 ''1'' 5)),
      (env_at 400000, Deliver 400000 ''B'' ''topic'' (2, G16 ''2'' 5)),
      (env_at 1200000, Deliver 1200000 ''A'' ''topic'' (3, G16 ''3'' 5))]"

section \<open>Windows and invariants of the dispatcher\<close>

text \<open>
  The windows that \<open>_clean_expired\<close> keeps at the clock reading \<open>now\<close>: a window
  opened at \<open>when\<close> expires once \<open>when + horizon < now\<close>.
\<close>

definition live :: "int \<Rightarrow> int \<Rightarrow> ('a \<times> int) list \<Rightarrow> ('a \<times> int) list" where
  "live h now ak = filter (\<lambda>(key, when). \<not> (when + h < now)) ak"

text \<open>
  The states of a dispatcher in Race mode: a key expression, no score, no buffer, a
  horizon, and a table of active keys (a dictionary: its keys are distinct).
\<close>

definition race_inv :: "int \<Rightarrow> 'k dispatcher \<Rightarrow> bool" where
  "race_inv h d \<longleftrightarrow>
     key_code d \<noteq> None \<and> score_code d = SNone \<and> msg_buffer d = None
     \<and> horizon d = Some h
     \<and> (\<exists>ak. active_keys d = Some ak \<and> distinct (map fst ak))"

text \<open>The parts of a queue entry \<open>(when, host, routing_key, msg)\<close>.\<close>

definition c_host :: "candidate \<Rightarrow> string" where
  "c_host c = fst (snd c)"

definition c_rk :: "candidate \<Rightarrow> string" where
  "c_rk c = fst (snd (snd c))"

definition c_msg :: "candidate \<Rightarrow> msgobj" where
  "c_msg c = snd (snd (snd c))"

text \<open>The windows that \<open>_clean_expired\<close> closes at the clock reading \<open>now\<close>.\<close>

definition expired :: "int \<Rightarrow> int \<Rightarrow> ('a \<times> int) list \<Rightarrow> ('a \<times> int) list" where
  "expired h now ak = filter (\<lambda>(key, when). when + h < now) ak"

text \<open>
  The identities of the messages that a sequence of calls delivers. Objects that are
  alive together have different identities, so these are distinct.
\<close>

fun delivered_ids :: "(env \<times> delivery) list \<Rightarrow> nat list" where
  "delivered_ids [] = []"
| "delivered_ids ((e, Tick) # calls) = delivered_ids calls"
| "delivered_ids ((e, Deliver when host routing_key msg) # calls) = fst msg # delivered_ids calls"

text \<open>
  The pairwise comparison returns one of its two arguments. For a scalar score this
  says that the scores of both messages evaluate to integers; for a comparator given
  with \<open>-s 'lambda a, b: ...'\<close> it is what the option asks of the user.
\<close>

definition comparable :: "'k dispatcher \<Rightarrow> msgobj \<Rightarrow> msgobj \<Rightarrow> bool" where
  "comparable d a b \<longleftrightarrow> compare d a b = Inr a \<or> compare d a b = Inr b"

text \<open>
  The states of a dispatcher in Compete mode, where \<open>seen\<close> holds the identities of
  the messages delivered so far: a key expression and a score; a table of active keys
  and a buffer with the same keys; every buffered list is not empty, holds messages
  of different identities, and holds only messages whose key is the key of the list.
\<close>

definition compete_inv :: "nat set \<Rightarrow> 'k dispatcher \<Rightarrow> bool" where
  "compete_inv seen d \<longleftrightarrow>
     key_code d \<noteq> None \<and> score_code d \<noteq> SNone
     \<and> ((\<exists>sf. score_code d = SCode sf) \<longrightarrow> compare_fn d = None)
     \<and> (\<exists>h. horizon d = Some h)
     \<and> (\<exists>ak buf. active_keys d = Some ak \<and> msg_buffer d = Some buf
           \<and> distinct (map fst ak) \<and> distinct (map fst buf)
           \<and> fst ` set buf = fst ` set ak
           \<and> (\<forall>(key, cs) \<in> set buf.
                 cs \<noteq> [] \<and> distinct (map (\<lambda>c. fst (c_msg c)) cs)
                 \<and> (\<forall>c \<in> set cs. key_for_msg d (snd (c_msg c)) = key
                                    \<and> fst (c_msg c) \<in> seen)))"

text \<open>
  What the theorem on Compete mode asks of the candidates of a window: they are
  pairwise comparable, and \<open>emit\<close> raises on none of them (no transform, callback
  or template raises).
\<close>

definition can_compete :: "'k dispatcher \<Rightarrow> env \<Rightarrow> candidate list \<Rightarrow> bool" where
  "can_compete d e cs \<longleftrightarrow>
     (\<forall>a \<in> set cs. \<forall>b \<in> set cs. comparable d (c_msg a) (c_msg b))
     \<and> (\<forall>c \<in> set cs. \<exists>out. emit d e (c_rk c) (snd (c_msg c)) = Inr out)"

text \<open>
  The candidate \<open>c\<close> of the list \<open>cs\<close> is the one emitted as \<open>out\<close>: it is in the
  list, \<open>out\<close> is what \<open>emit\<close> makes of it under its own routing key, and when
  the score is scalar no candidate of the list has a larger score.
\<close>

definition wins :: "'k dispatcher \<Rightarrow> env \<Rightarrow> candidate list \<Rightarrow> candidate \<Rightarrow> emitted \<Rightarrow> bool" where
  "wins d e cs c out \<longleftrightarrow>
     c \<in> set cs \<and> emit d e (c_rk c) (snd (c_msg c)) = Inr out
     \<and> ((\<exists>sf. score_code d = SCode sf) \<longrightarrow>
          (\<exists>s. score_for_msg d (snd (c_msg c)) = Some s
             \<and> (\<forall>c' \<in> set cs. \<exists>s'. score_for_msg d (snd (c_msg c')) = Some s' \<and> s' \<le> s)))"

text \<open>
  Scenario S2 of the specification, with a window of one second: three messages of
  one key with the scores 5, 7 and 6, then the state of the dispatcher once they are
  buffered. And a payload with no field \<open>defects\<close>.
\<close>

definition S2_buffer :: "candidate list" where
  "S2_buffer =
     [(0, ''A'', ''topic'', (1, G16 ''1'' 5)),
      (300000, ''B'', ''topic'', (2, G16 ''2'' 7)),
      (600000, ''C'', ''topic'', (3, G16 ''3'' 6))]"

definition S2_calls :: "(env \<times> delivery) list" where
  "S2_calls =
     map (\<lambda>(when, host, routing_key, msg). (env_at when, Deliver when host routing_key msg))
       S2_buffer"

definition S2_state :: "pyval dispatcher" where
  "S2_state =
     (Dispatcher (Some []) (compete_opts 1000000) [])
       \<lparr>active_keys := Some [(Some (PStr ''G16''), 0)],
        msg_buffer := Some [(Some (PStr ''G16''), S2_buffer)]\<rparr>"

definition unscored :: payload where
  "unscored = [(''sat'', PStr ''G16''), (''t'', PStr ''2'')]"

section \<open>Properties of the ingest parser\<close>

lemma length_fields_scan:
  "length (fields_scan line bs i n) =
     length (filter (\<lambda>b. b = INGEST_SEPARATOR \<or> b = NEWLINE) bs)"
  by (induction bs arbitrary: i n) (simp_all add: Let_def)

lemma length_fields_from_line:
  "length (fields_from_line line) =
     length (filter (\<lambda>b. b = INGEST_SEPARATOR \<or> b = NEWLINE) line)"
  by (simp add: fields_from_line_def length_fields_scan)

lemma length_INGEST_FIELDS: "length INGEST_FIELDS = 11"
  by (simp add: INGEST_FIELDS_def)

text \<open>
  C9, as stated, fails: the line consisting of a newline only (an empty line) has one
  field, not eleven, and still yields a mapping, \<open>{topic: None}\<close>; the line
  \<open>a!b\<close> with its newline has two fields and yields a mapping of two keys.
\<close>

theorem read_input_malformed_counterexample:
  "read_input [[NEWLINE]] = [[(''topic'', None)]]
   \<and> read_input [[CHR ''a'', CHR ''!'', CHR ''b'', NEWLINE]]
       = [[(''topic'', Some ''a''), (''band'', Some ''b'')]]"
  by (simp add: read_input_def fields_from_line_def INGEST_FIELDS_def
      INGEST_SEPARATOR_def NEWLINE_def AMQPFIND_MISSING_def)

text \<open>
  C9, amended: \<open>read_input\<close> yields exactly one mapping for every line, whatever its
  field count. The mapping pairs the schema's names, in order, with the fields of the
  line, up to the shorter of the two: its keys are the first \<open>n\<close> names for a line of
  \<open>n \<le> 11\<close> fields (the number of separator and newline bytes), and all eleven
  names for a line of eleven fields or more.
\<close>

theorem read_input_one_mapping_per_line:
  "length (read_input lines) = length lines
   \<and> list_all2
       (\<lambda>line m. map fst m = take (length (fields_from_line line)) INGEST_FIELDS
                \<and> map snd m = take 11 (fields_from_line line)
                \<and> length m = min 11 (length (filter (\<lambda>b. b = INGEST_SEPARATOR \<or> b = NEWLINE) line)))
       lines (read_input lines)"
proof -
  have one: "map fst (zip INGEST_FIELDS fs) = take (length fs) INGEST_FIELDS
      \<and> map snd (zip INGEST_FIELDS fs) = take 11 fs
      \<and> length (zip INGEST_FIELDS fs) = min 11 (length fs)" for fs :: "char list option list"
    by (cases "length fs \<le> 11")
      (simp_all add: map_fst_zip_take map_snd_zip_take length_INGEST_FIELDS min_def)
  show ?thesis
    unfolding read_input_def
    by (simp add: list_all2_conv_all_nth one length_INGEST_FIELDS
        length_fields_from_line [symmetric])
qed

theorem read_input_one_mapping_per_line_witness:
  "length (read_input [[NEWLINE], ''x'']) = 2
   \<and> map (map fst) (read_input [[NEWLINE], ''x'']) = [[''topic''], []]"
  using read_input_one_mapping_per_line [of "[[NEWLINE], ''x'']"]
  by (simp add: read_input_def fields_from_line_def INGEST_FIELDS_def
      INGEST_SEPARATOR_def NEWLINE_def AMQPFIND_MISSING_def)

section \<open>Properties of the exit status\<close>

text \<open>
  C6: on expiry of the idle timer the multi-broker tool exits with status 2, and the
  single-broker tool with status 1.
\<close>

theorem idle_timeout_exit_status:
  "multi_main (Some TimeoutException) = Inr 2
   \<and> single_main (Some TimeoutException) = Inr 1
   \<and> main_rc 1 False (Some TimeoutException) = Inr 1
   \<and> main_rc 2 False (Some TimeoutException) = Inr 2"
  by (simp add: multi_main_def single_main_def main_rc_def)

section \<open>Properties of the partitioned writer\<close>

lemma remdups_snoc: "remdups (xs @ [x]) = removeAll x (remdups xs) @ [x]"
  by (induction xs) auto

lemma open_files_snoc: "open_files (evs @ [ev]) = apply_event ev (open_files evs)"
  by (simp add: open_files_def)

lemma map_fst_filter_neq:
  "map fst (filter (\<lambda>q. fst q \<noteq> d) pool) = removeAll d (map fst pool)"
  by (induction pool) auto

lemma map_of_Some_fst: "map_of pool d = Some h \<Longrightarrow> d \<in> set (map fst pool)"
  by (induction pool) (auto split: if_splits)

lemma map_of_None_fst: "map_of pool d = None \<Longrightarrow> d \<notin> set (map fst pool)"
  by (induction pool) (auto split: if_splits)

lemma length_removeAll_distinct:
  "distinct xs \<Longrightarrow> x \<in> set xs \<Longrightarrow> Suc (length (removeAll x xs)) = length xs"
  by (induction xs) (auto simp: removeAll_id)

lemma writer_inv_init: "0 \<le> n \<Longrightarrow> writer_inv n [] (BatchWriter n)"
  by (simp add: writer_inv_def BatchWriter_def open_files_def)

lemma map_of_mem: "map_of pool d = Some h \<Longrightarrow> (d, h) \<in> set pool"
  by (rule map_of_SomeD)

lemma pair_of_key:
  assumes "distinct (map fst pool)" and "map_of pool d = Some h"
    and "q \<in> set pool" and "fst q = d"
  shows "q = (d, h)"
proof -
  obtain a b where q: "q = (a, b)" by (cases q)
  have "map_of pool a = Some b"
    using assms(1) assms(3) unfolding q by (rule map_of_is_SomeI)
  then show ?thesis using assms(2) assms(4) by (simp add: q)
qed

lemma set_move_to_end:
  assumes "distinct (map fst pool)" and "map_of pool d = Some h"
  shows "set (filter (\<lambda>q. fst q \<noteq> d) pool @ [(d, h)]) = set pool"
proof (rule set_eqI)
  fix q
  have mem: "(d, h) \<in> set pool" using assms(2) by (rule map_of_SomeD)
  show "q \<in> set (filter (\<lambda>q. fst q \<noteq> d) pool @ [(d, h)]) \<longleftrightarrow> q \<in> set pool"
  proof (cases "fst q = d")
    case True
    then show ?thesis using pair_of_key [OF assms, of q] mem by fastforce
  next
    case False
    then show ?thesis by fastforce
  qed
qed

lemma distinct_snd_move_to_end:
  assumes "distinct (map fst pool)" and "distinct (map snd pool)" and "map_of pool d = Some h"
  shows "distinct (map snd (filter (\<lambda>q. fst q \<noteq> d) pool @ [(d, h)]))"
proof -
  have mem: "(d, h) \<in> set pool" using assms(3) by (rule map_of_SomeD)
  have inj: "inj_on snd (set pool)" using assms(2) by (simp add: distinct_map)
  have "h \<notin> snd ` set (filter (\<lambda>q. fst q \<noteq> d) pool)"
  proof
    assume "h \<in> snd ` set (filter (\<lambda>q. fst q \<noteq> d) pool)"
    then obtain q where q: "q \<in> set pool" "fst q \<noteq> d" "snd q = h" by auto
    have "q = (d, h)" using inj_onD [OF inj, of q "(d, h)"] q mem by simp
    with q(2) show False by simp
  qed
  moreover have "distinct (map snd (filter (\<lambda>q. fst q \<noteq> d) pool))"
    using assms(2) by (simp add: distinct_map_filter)
  ultimately show ?thesis by simp
qed

lemma get_writer_hit:
  assumes inv: "writer_inv n ds w" and hit: "map_of (writer_pool w) d = Some h"
  shows "\<exists>w'. get_writer w d = Inr (w', h) \<and> writer_inv n (ds @ [d]) w'
           \<and> map_of (writer_pool w') d = Some h \<and> events w' = events w"
proof -
  define P where "P = writer_pool w"
  define P' where "P' = filter (\<lambda>q. fst q \<noteq> d) P @ [(d, h)]"
  define w' where "w' = w\<lparr>writer_pool := P'\<rparr>"
  have dK: "distinct (map fst P)" and dH: "distinct (map snd P)"
    and len: "int (length P) \<le> n" and mx: "max_size w = n"
    and opn: "open_files (events w) = snd ` set P"
    and bnd: "\<forall>h \<in> snd ` set P. h < next_handle w"
    using inv by (simp_all add: writer_inv_def P_def)
  obtain A where A: "remdups ds = A @ map fst P" "A \<noteq> [] \<longrightarrow> int (length P) = n"
    using inv by (auto simp: writer_inv_def P_def)
  have hitP: "map_of P d = Some h" using hit by (simp add: P_def)
  have dmem: "d \<in> set (map fst P)" using hitP by (rule map_of_Some_fst)
  have run: "get_writer w d = Inr (w', h)"
    using hit by (simp add: get_writer_def move_to_end_def w'_def P'_def P_def)
  have keys: "map fst P' = removeAll d (map fst P) @ [d]"
    by (simp add: P'_def map_fst_filter_neq)
  have setP: "set P' = set P" unfolding P'_def using dK hitP by (rule set_move_to_end)
  have lenP: "length P' = length P"
    using length_removeAll_distinct [OF dK dmem] keys
    by (metis length_append_singleton length_map)
  have "distinct (remdups ds)" by simp
  then have dA: "d \<notin> set A" using A(1) dmem by (metis disjoint_iff distinct_append)
  have i5: "\<exists>B. remdups (ds @ [d]) = B @ map fst P' \<and> (B \<noteq> [] \<longrightarrow> int (length P') = n)"
    using A dA lenP by (intro exI [of _ A]) (simp add: remdups_snoc keys removeAll_id)
  have i2: "distinct (map fst P')" using dK by (simp add: keys distinct_removeAll)
  have i3: "distinct (map snd P')"
    unfolding P'_def using dK dH hitP by (rule distinct_snd_move_to_end)
  have "map_of P' d = Some h"
  proof -
    have "map_of (filter (\<lambda>q. fst q \<noteq> d) P) d = None"
      by (auto simp: map_of_eq_None_iff)
    then show ?thesis by (simp add: P'_def map_add_def)
  qed
  moreover have "writer_inv n (ds @ [d]) w'"
    unfolding writer_inv_def
    using i2 i3 i5 len mx opn bnd setP lenP by (simp add: w'_def)
  ultimately show ?thesis using run by (intro exI [of _ w']) (simp add: w'_def)
qed

lemma update_fresh: "d \<notin> set (map fst pool) \<Longrightarrow> AList.update d h pool = pool @ [(d, h)]"
  by (induction pool) auto

lemma map_of_snoc_fresh:
  "d \<notin> set (map fst pool) \<Longrightarrow> map_of (pool @ [(d, h)]) d = Some h"
  by (induction pool) auto

lemma open_files_append:
  "open_files (evs @ evs') = fold apply_event evs' (open_files evs)"
  by (simp add: open_files_def)

lemma get_writer_miss_room:
  assumes inv: "writer_inv n ds w" and miss: "map_of (writer_pool w) d = None"
    and room: "int (length (writer_pool w)) < n"
  shows "\<exists>w'. get_writer w d = Inr (w', next_handle w) \<and> writer_inv n (ds @ [d]) w'
           \<and> map_of (writer_pool w') d = Some (next_handle w)
           \<and> writer_pool w' = writer_pool w @ [(d, next_handle w)]
           \<and> events w' = events w @ [Open d (next_handle w)]"
proof -
  define P where "P = writer_pool w"
  define h where "h = next_handle w"
  define w' where
    "w' = w\<lparr>next_handle := h + 1, events := events w @ [Open d h], writer_pool := P @ [(d, h)]\<rparr>"
  have dK: "distinct (map fst P)" and dH: "distinct (map snd P)"
    and mx: "max_size w = n"
    and opn: "open_files (events w) = snd ` set P"
    and bnd: "\<forall>x \<in> snd ` set P. x < h"
    using inv by (simp_all add: writer_inv_def P_def h_def)
  obtain A where A: "remdups ds = A @ map fst P" "A \<noteq> [] \<longrightarrow> int (length P) = n"
    using inv by (auto simp: writer_inv_def P_def)
  have roomP: "int (length P) < n" using room by (simp add: P_def)
  have A_Nil: "A = []" using A(2) roomP by auto
  have fresh: "d \<notin> set (map fst P)" using miss unfolding P_def by (rule map_of_None_fst)
  have run: "get_writer w d = Inr (w', h)"
    using miss room mx fresh
    by (simp add: get_writer_def Let_def w'_def h_def P_def update_fresh)
  have i5: "\<exists>B. remdups (ds @ [d]) = B @ map fst (P @ [(d, h)])
               \<and> (B \<noteq> [] \<longrightarrow> int (length (P @ [(d, h)])) = n)"
    using A(1) A_Nil fresh by (intro exI [of _ "[]"]) (simp add: remdups_snoc removeAll_id)
  have i2: "distinct (map fst (P @ [(d, h)]))" using dK fresh by simp
  have i3: "distinct (map snd (P @ [(d, h)]))" using dH bnd by auto
  have i4: "int (length (P @ [(d, h)])) \<le> n" using roomP by simp
  have i6: "open_files (events w @ [Open d h]) = snd ` set (P @ [(d, h)])"
    using opn by (simp add: open_files_snoc)
  have i7: "\<forall>x \<in> snd ` set (P @ [(d, h)]). x < h + 1" using bnd by auto
  have "writer_inv n (ds @ [d]) w'"
    unfolding writer_inv_def w'_def using i2 i3 i4 i5 i6 i7 mx by simp
  moreover have "map_of (P @ [(d, h)]) d = Some h"
    using fresh by (rule map_of_snoc_fresh)
  ultimately show ?thesis
    using run by (intro exI [of _ w']) (simp add: w'_def h_def P_def)
qed

lemma get_writer_miss_full:
  assumes inv: "writer_inv n ds w" and miss: "map_of (writer_pool w) d = None"
    and full: "n \<le> int (length (writer_pool w))" and pos: "0 < n"
  shows "\<exists>w' old ho rest. writer_pool w = (old, ho) # rest
           \<and> get_writer w d = Inr (w', next_handle w) \<and> writer_inv n (ds @ [d]) w'
           \<and> map_of (writer_pool w') d = Some (next_handle w)
           \<and> writer_pool w' = rest @ [(d, next_handle w)]
           \<and> events w' = events w @ [Open d (next_handle w), WriterClose ho, Flush ho, FileClose ho]"
proof -
  define P where "P = writer_pool w"
  define h where "h = next_handle w"
  have dK: "distinct (map fst P)" and dH: "distinct (map snd P)"
    and mx: "max_size w = n" and len: "int (length P) \<le> n"
    and opn: "open_files (events w) = snd ` set P"
    and bnd: "\<forall>x \<in> snd ` set P. x < h"
    using inv by (simp_all add: writer_inv_def P_def h_def)
  obtain A where A: "remdups ds = A @ map fst P"
    using inv by (auto simp: writer_inv_def P_def)
  have lenP: "int (length P) = n" using len full by (simp add: P_def)
  then have "P \<noteq> []" using pos by auto
  then obtain old ho rest where P: "P = (old, ho) # rest" by (cases P) auto
  define w' where
    "w' = w\<lparr>next_handle := h + 1,
            events := events w @ [Open d h, WriterClose ho, Flush ho, FileClose ho],
            writer_pool := rest @ [(d, h)]\<rparr>"
  have fresh: "d \<notin> set (map fst P)" using miss unfolding P_def by (rule map_of_None_fst)
  then have fresh': "d \<notin> set (map fst rest)" and old_d: "old \<noteq> d" by (auto simp: P)
  have run: "get_writer w d = Inr (w', h)"
    using miss full mx fresh' P
    by (simp add: get_writer_def Let_def close_date_def w'_def h_def P_def [symmetric] update_fresh)
  have "remdups (ds @ [d]) = removeAll d A @ map fst P @ [d]"
    using A fresh by (simp add: remdups_snoc removeAll_id)
  then have "remdups (ds @ [d]) = (removeAll d A @ [old]) @ map fst (rest @ [(d, h)])"
    by (simp add: P)
  moreover have "int (length (rest @ [(d, h)])) = n" using lenP by (simp add: P)
  ultimately have i5: "\<exists>B. remdups (ds @ [d]) = B @ map fst (rest @ [(d, h)])
               \<and> (B \<noteq> [] \<longrightarrow> int (length (rest @ [(d, h)])) = n)"
    by blast
  have i2: "distinct (map fst (rest @ [(d, h)]))" using dK fresh' by (simp add: P)
  have i3: "distinct (map snd (rest @ [(d, h)]))" using dH bnd by (auto simp: P)
  have i4: "int (length (rest @ [(d, h)])) \<le> n" using lenP by (simp add: P)
  have ho_h: "ho \<noteq> h" using bnd by (auto simp: P)
  have ho_rest: "ho \<notin> snd ` set rest" using dH by (auto simp: P)
  have i6: "open_files (events w @ [Open d h, WriterClose ho, Flush ho, FileClose ho])
              = snd ` set (rest @ [(d, h)])"
    using opn ho_h ho_rest by (auto simp: open_files_append P)
  have i7: "\<forall>x \<in> snd ` set (rest @ [(d, h)]). x < h + 1" using bnd by (auto simp: P)
  have "writer_inv n (ds @ [d]) w'"
    unfolding writer_inv_def w'_def using i2 i3 i4 i5 i6 i7 mx by simp
  moreover have "map_of (rest @ [(d, h)]) d = Some h"
    using fresh' by (rule map_of_snoc_fresh)
  ultimately show ?thesis
    using run P by (intro exI [of _ w'] exI [of _ old] exI [of _ ho] exI [of _ rest])
      (simp add: w'_def h_def P_def)
qed

lemma get_writer_inv:
  assumes inv: "writer_inv n ds w" and pos: "0 < n"
  shows "\<exists>w' h. get_writer w d = Inr (w', h) \<and> writer_inv n (ds @ [d]) w'"
proof (cases "map_of (writer_pool w) d")
  case (Some h)
  then show ?thesis using get_writer_hit [OF inv Some] by blast
next
  case None
  show ?thesis
  proof (cases "int (length (writer_pool w)) < n")
    case True
    then show ?thesis using get_writer_miss_room [OF inv None True] by blast
  next
    case False
    then have "n \<le> int (length (writer_pool w))" by simp
    then show ?thesis using get_writer_miss_full [OF inv None _ pos] by blast
  qed
qed

lemma writer_inv_events:
  "writer_inv n ds w \<Longrightarrow> writer_inv n ds (w\<lparr>events := events w @ [WriteBatch h b]\<rparr>)"
  by (simp add: writer_inv_def open_files_snoc)

lemma write_batch_inv:
  assumes inv: "writer_inv n ds w" and pos: "0 < n"
  shows "\<exists>w'. write_batch w b d = Inr w' \<and> writer_inv n (ds @ [d]) w'"
proof -
  obtain w1 h where g: "get_writer w d = Inr (w1, h)" and i1: "writer_inv n (ds @ [d]) w1"
    using get_writer_inv [OF inv pos] by blast
  show ?thesis using g writer_inv_events [OF i1] by (simp add: write_batch_def)
qed

lemma write_batches_inv:
  assumes pos: "0 < n"
  shows "writer_inv n ds w \<Longrightarrow>
    \<exists>w'. write_batches w calls = Inr w' \<and> writer_inv n (ds @ map snd calls) w'"
proof (induction calls arbitrary: w ds)
  case Nil
  then show ?case by simp
next
  case (Cons c calls)
  obtain b d where c: "c = (b, d)" by (cases c)
  obtain w1 where s: "write_batch w b d = Inr w1" and i1: "writer_inv n (ds @ [d]) w1"
    using write_batch_inv [OF Cons.prems pos] by blast
  show ?case using Cons.IH [OF i1] s by (simp add: c)
qed

lemma writer_inv_lru:
  assumes "writer_inv n ds w"
  shows "map fst (writer_pool w) = last_n (nat n) (remdups ds)"
proof -
  obtain A where A: "remdups ds = A @ map fst (writer_pool w)"
      "A \<noteq> [] \<longrightarrow> int (length (writer_pool w)) = n"
    and len: "int (length (writer_pool w)) \<le> n"
    using assms by (auto simp: writer_inv_def)
  show ?thesis
  proof (cases "A = []")
    case True
    then show ?thesis using A(1) len by (simp add: last_n_def)
  next
    case False
    then have "length (writer_pool w) = nat n" using A(2) by simp
    then show ?thesis using A(1) by (simp add: last_n_def)
  qed
qed

text \<open>
  C8: for a positive \<open>pool_size\<close>, every sequence of \<open>write_batch\<close> calls on a new
  \<open>BatchWriter\<close> succeeds, and after it (so at every point of a longer sequence) the
  pool holds at most \<open>pool_size\<close> handles; its dates are the \<open>pool_size\<close> most
  recently used ones, least recently used first; the files it holds are exactly the
  files that are open. When the next date is not in the pool and the pool is full, the
  first date of the pool, the least recently used one, has its writer closed and its
  file flushed and closed, and the new date is admitted at the end of the pool. (The
  new file is opened before the old one is closed; it enters the pool after.)
\<close>

theorem writer_pool_bounded_lru:
  assumes "0 < pool_size"
  shows "\<exists>w. write_batches (BatchWriter pool_size) calls = Inr w
     \<and> int (length (writer_pool w)) \<le> pool_size
     \<and> map fst (writer_pool w) = last_n (nat pool_size) (remdups (map snd calls))
     \<and> open_files (events w) = snd ` set (writer_pool w)
     \<and> (\<forall>date. map_of (writer_pool w) date = None
            \<and> pool_size \<le> int (length (writer_pool w)) \<longrightarrow>
          (\<exists>w' old ho rest. writer_pool w = (old, ho) # rest
             \<and> get_writer w date = Inr (w', next_handle w)
             \<and> writer_pool w' = rest @ [(date, next_handle w)]
             \<and> events w' = events w
                  @ [Open date (next_handle w), WriterClose ho, Flush ho, FileClose ho]))"
proof -
  have "writer_inv pool_size [] (BatchWriter pool_size :: ('a, 'b) batch_writer)"
    using assms by (simp add: writer_inv_init)
  then obtain w where run: "write_batches (BatchWriter pool_size) calls = Inr w"
    and inv: "writer_inv pool_size (map snd calls) w"
    using write_batches_inv [OF assms, of "[]" "BatchWriter pool_size" calls] by auto
  have len: "int (length (writer_pool w)) \<le> pool_size"
    and opn: "open_files (events w) = snd ` set (writer_pool w)"
    using inv by (simp_all add: writer_inv_def)
  have lru: "map fst (writer_pool w) = last_n (nat pool_size) (remdups (map snd calls))"
    using inv by (rule writer_inv_lru)
  have evict: "\<exists>w' old ho rest. writer_pool w = (old, ho) # rest
             \<and> get_writer w date = Inr (w', next_handle w)
             \<and> writer_pool w' = rest @ [(date, next_handle w)]
             \<and> events w' = events w
                  @ [Open date (next_handle w), WriterClose ho, Flush ho, FileClose ho]"
    if "map_of (writer_pool w) date = None" "pool_size \<le> int (length (writer_pool w))"
    for date
    using get_writer_miss_full [OF inv that assms] by blast
  show ?thesis
    using run len opn lru evict by (intro exI [of _ w]) blast
qed

theorem writer_pool_bounded_lru_witness:
  "(0::int) < 2
   \<and> (\<exists>w. write_batches (BatchWriter 2) [((), 1::nat), ((), 2), ((), 1), ((), 3)] = Inr w
        \<and> map fst (writer_pool w) = [1, 3]
        \<and> int (length (writer_pool w)) \<le> 2)"
proof -
  have pos: "(0::int) < 2" by simp
  obtain w where
    "write_batches (BatchWriter 2) [((), 1::nat), ((), 2), ((), 1), ((), 3)] = Inr w"
    "int (length (writer_pool w)) \<le> 2"
    "map fst (writer_pool w)
       = last_n (nat 2) (remdups (map snd [((), 1::nat), ((), 2), ((), 1), ((), 3)]))"
    using writer_pool_bounded_lru [OF pos, of "[((), 1::nat), ((), 2), ((), 1), ((), 3)]"]
    by blast
  then show ?thesis by (intro conjI pos exI [of _ w]) (simp_all add: last_n_def)
qed

section \<open>Properties of the emitter\<close>

lemma get_field_plain:
  assumes "plain f"
  shows "get_field r lookup positional (field_name f) = lookup (field_name f)"
proof -
  have chars: "\<forall>c \<in> set (field_name f). c \<noteq> CHR ''.'' \<and> c \<noteq> CHR ''[''"
    using assms by (auto simp: plain_def)
  have tw: "takeWhile (\<lambda>c. c \<noteq> CHR ''.'' \<and> c \<noteq> CHR ''['') (field_name f) = field_name f"
    using chars by (simp add: takeWhile_eq_all_conv)
  have dw: "dropWhile (\<lambda>c. c \<noteq> CHR ''.'' \<and> c \<noteq> CHR ''['') (field_name f) = []"
    using chars by (simp add: dropWhile_eq_Nil_conv)
  have gi: "get_integer (field_name f) = Inr None" and ne: "field_name f \<noteq> []"
    using assms by (simp_all add: plain_def)
  show ?thesis
    unfolding get_field_def Let_def tw dw gi using ne
    by (simp split: sum.splits)
qed

lemma render_field_plain:
  assumes "plain f"
  shows "render_field r (\<lambda>k. Inr (discontent content k)) positional f
           = Inr (py_str r (discontent content (field_name f)))"
proof -
  have "conversion f = None" and "format_spec f = []"
    using assms by (simp_all add: plain_def)
  then show ?thesis
    unfolding render_field_def get_field_plain [OF assms]
    by (simp add: do_conversion_def)
qed

lemma format_map_plain:
  "list_all (\<lambda>p. case snd p of None \<Rightarrow> True | Some f \<Rightarrow> plain f) parts \<Longrightarrow>
   format_map r content parts = Inr (concat (map (spec_render r content) parts))"
  unfolding format_map_def
proof (induction parts)
  case Nil
  then show ?case by simp
next
  case (Cons p ps)
  obtain lit fld where p: "p = (lit, fld)" by (cases p)
  show ?case
  proof (cases fld)
    case None
    then show ?thesis using Cons by (simp add: p)
  next
    case (Some f)
    then have "plain f" using Cons.prems by (simp add: p)
    note rf = render_field_plain [OF this, of r content ValueError]
    have sr: "spec_render r content (lit, Some f)
                = lit @ py_str r (discontent content (field_name f))"
      by (simp add: discontent_def missing_def split: option.splits)
    show ?thesis using Cons Some
      by (simp add: p rf sr del: spec_render.simps)
  qed
qed

lemma plain_field: "plain (field ''t'')"
  by (simp add: plain_def field_def get_integer_def)

lemma json_emit_template_t:
  "json_emit r topic content (Some template_t)
     = Inr (Printed (case map_of content ''t'' of Some v \<Rightarrow> py_str r v | None \<Rightarrow> ''?UNKNOWN?''))"
proof -
  have "list_all (\<lambda>p. case snd p of None \<Rightarrow> True | Some f \<Rightarrow> plain f) [([], Some (field ''t''))]"
    using plain_field by simp
  from format_map_plain [OF this, of r content] show ?thesis
    by (simp add: json_emit_def template_t_def field_def)
qed

text \<open>
  A placeholder with an attribute, \<open>{a.b}\<close>, on a payload that lacks \<open>a\<close>: the
  sentinel string has no such attribute, the handler formats again with the keyword
  \<open>a.b\<close> only, the name \<open>a\<close> is no keyword, and the message is skipped.
\<close>

lemma template_attribute_is_skipped:
  "json_emit rt_example ''topic'' [] (Some (Template [([], Some (field ''a.b''))])) = Inr Skipped"
  by (simp add: json_emit_def format_map_def format_kwargs_def upheaval_def render_field_def
      get_field_def get_integer_def field_def discontent_def missing_def rt_example_def)



section \<open>Properties of the transforms\<close>

text \<open>
  C3: what the code does when a transform raises. With the rules \<open>a = 1/0\<close> and
  \<open>b = 'x'\<close> the exception leaves \<open>Transforms.__call__\<close>, \<open>emit\<close> and the
  dispatcher: the second rule does not run and nothing is emitted. With the second
  rule alone the event is emitted.
\<close>

theorem transform_exception_propagates:
  "Transforms_call [(''a'', expr_div_zero), (''b'', expr_x)] (G16 ''1'' 5) = Inl ZeroDivisionError
   \<and> emit (Dispatcher (Some [(''a'', expr_div_zero), (''b'', expr_x)]) passthrough_opts [])
        (env_at 0) ''topic'' (G16 ''1'' 5) = Inl ZeroDivisionError
   \<and> map_sum id snd
        (run (Dispatcher (Some [(''a'', expr_div_zero), (''b'', expr_x)]) passthrough_opts [])
           [(env_at 0, Deliver 0 ''host'' ''topic'' (1, G16 ''1'' 5))])
       = Inl ZeroDivisionError
   \<and> map_sum id snd
        (run (Dispatcher (Some [(''b'', expr_x)]) passthrough_opts [])
           [(env_at 0, Deliver 0 ''host'' ''topic'' (1, G16 ''1'' 5))])
       = Inr [[Printed ''1'']]"
  by (simp add: Transforms_call_def expr_div_zero_def expr_x_def emit_def Dispatcher_def
      passthrough_opts_def call_def G16_def env_at_def add_default_metadata_def setdefault_def
      json_emit_template_t)

section \<open>Properties of the dispatcher\<close>

lemma emit_cong:
  assumes "transforms d = transforms d'" and "callback d = callback d'"
    and "json_format_str d = json_format_str d'"
    and "extra_default_payload d = extra_default_payload d'"
  shows "emit d e topic msg = emit d' e topic msg"
  unfolding emit_def add_default_metadata_def assms ..

lemma score_only_call:
  assumes "key_code d = None" and "active_keys d = None"
  shows "call d e (Deliver when host routing_key msg)
           = (case emit d e routing_key (snd msg) of
                Inl err \<Rightarrow> Inl err
              | Inr out \<Rightarrow> Inr (d, [out], None))"
    and "call d e Tick = Inr (d, [], None)"
  using assms by (simp_all add: call_def max_sleep_til_next_window_def split: sum.splits)

lemma score_only_run:
  assumes "key_code d = None" and "active_keys d = None"
  shows "run d calls = Inr (d', outss) \<Longrightarrow> d' = d \<and> map length outss = map n_messages calls"
proof (induction calls arbitrary: outss)
  case Nil
  then show ?case by simp
next
  case (Cons ec calls)
  obtain e c where ec: "ec = (e, c)" by (cases ec)
  show ?case
  proof (cases c)
    case Tick
    then show ?thesis
      using Cons score_only_call(2) [OF assms, of e]
      by (auto simp: ec split: sum.splits)
  next
    case (Deliver w h rk m)
    then show ?thesis
      using Cons score_only_call(1) [OF assms, of e w h rk m]
      by (auto simp: ec split: sum.splits)
  qed
qed

text \<open>
  C10: a dispatcher configured with a score expression and no key expression has no
  table of active keys and an empty message buffer. Every call with a message emits
  that message at once (or raises what \<open>emit\<close> raises), leaves the state as it
  was and asks for no wake-up; a call without a message emits nothing. What is emitted
  is what the dispatcher without the score option emits. Along any sequence of calls
  the state never changes and every message gives exactly one output.
\<close>

theorem score_without_key_is_passthrough:
  assumes "o_key opts = None" and "o_score opts = Some sc"
    and "d = Dispatcher rules opts extra"
  shows "active_keys d = None \<and> msg_buffer d = Some []
     \<and> call d e (Deliver when host routing_key msg)
         = (case emit d e routing_key (snd msg) of
              Inl err \<Rightarrow> Inl err
            | Inr out \<Rightarrow> Inr (d, [out], None))
     \<and> call d e Tick = Inr (d, [], None)
     \<and> emit d e routing_key (snd msg)
         = emit (Dispatcher rules (opts\<lparr>o_score := None\<rparr>) extra) e routing_key (snd msg)
     \<and> (\<forall>d' outss. run d calls = Inr (d', outss)
            \<longrightarrow> d' = d \<and> map length outss = map n_messages calls)"
proof -
  have k: "key_code d = None" and a: "active_keys d = None"
    using assms by (simp_all add: Dispatcher_def)
  have b: "msg_buffer d = Some []" using assms by (simp add: Dispatcher_def)
  have e: "emit d e routing_key (snd msg)
         = emit (Dispatcher rules (opts\<lparr>o_score := None\<rparr>) extra) e routing_key (snd msg)"
    unfolding assms(3) by (rule emit_cong) (simp_all add: Dispatcher_def)
  show ?thesis
    using a b e score_only_call [OF k a] score_only_run [OF k a] by blast
qed

theorem score_without_key_is_passthrough_witness:
  "o_key score_only_opts = None \<and> o_score score_only_opts = Some (Scalar score_defects)
   \<and> map_sum id snd
        (run (Dispatcher (Some []) score_only_opts [])
           [(env_at 0, Deliver 0 ''A'' ''topic'' (1, G16 ''1'' 5)),
            (env_at 1, Deliver 1 ''B'' ''topic'' (2, G16 ''1'' 7))])
       = Inr [[Printed ''1''], [Printed ''1'']]
   \<and> call (Dispatcher (Some []) score_only_opts []) (env_at 0) Tick
       = Inr (Dispatcher (Some []) score_only_opts [], [], None)"
proof -
  have h1: "o_key score_only_opts = None"
    and h2: "o_score score_only_opts = Some (Scalar score_defects)"
    by (simp_all add: score_only_opts_def passthrough_opts_def)
  have ev: "emit (Dispatcher (Some []) score_only_opts []) e ''topic'' (G16 ''1'' n)
              = Inr (Printed ''1'')" for e n
    by (simp add: emit_def Dispatcher_def score_only_opts_def passthrough_opts_def
        add_default_metadata_def setdefault_def Transforms_call_def G16_def json_emit_template_t)
  note t = score_without_key_is_passthrough [OF h1 h2 refl, of "Some []" "[]"]
  have c1: "call (Dispatcher (Some []) score_only_opts []) e (Deliver w h ''topic'' (i, G16 ''1'' n))
      = Inr (Dispatcher (Some []) score_only_opts [], [Printed ''1''], None)" for e w h i n
    using t [of e w h "''topic''" "(i, G16 ''1'' n)"] by (simp add: ev)
  have c2: "call (Dispatcher (Some []) score_only_opts []) (env_at 0) Tick
       = Inr (Dispatcher (Some []) score_only_opts [], [], None)"
    using t [of "env_at 0"] by simp
  show ?thesis using h1 h2 c2 by (simp add: c1)
qed

text \<open>
  C4, as stated, fails. The key expression \<open>1/0\<close> raises on every message; with a
  window of five seconds, two different messages arrive one second apart from two
  brokers. Both keys are \<open>None\<close>; the first message is emitted, the second is
  dropped as redundant.
\<close>

theorem race_failed_key_counterexample:
  "key_for_msg (Dispatcher (Some []) (failing_key_opts 5000000) []) (G16 ''1'' 5) = None
   \<and> key_for_msg (Dispatcher (Some []) (failing_key_opts 5000000) []) (G16 ''2'' 5) = None
   \<and> map_sum id snd
        (run (Dispatcher (Some []) (failing_key_opts 5000000) [])
           [(env_at 0, Deliver 0 ''A'' ''topic'' (1, G16 ''1'' 5)),
            (env_at 1000000, Deliver 1000000 ''B'' ''topic'' (2, G16 ''2'' 5))])
       = Inr [[Printed ''1''], []]"
  by (simp add: key_for_msg_def failing_key_opts_def race_opts_def expr_div_zero_def
      Dispatcher_def call_def dispatch_race_def clean_expired_def env_at_def emit_def
      add_default_metadata_def setdefault_def Transforms_call_def G16_def json_emit_template_t
      max_sleep_til_next_window_def)

text \<open>
  C4, amended: when the key expression raises on a message in Race mode, the key of
  the message is \<open>None\<close>, and \<open>None\<close> is a key like any other: the message is
  dropped when a window for \<open>None\<close> is open, and otherwise it is emitted and opens
  a window for \<open>None\<close>.
\<close>

theorem race_failed_key_is_key_None:
  assumes "key_code d = Some kc" and "kc (snd msg) = Inl err" and "active_keys d = Some ak"
  shows "key_for_msg d (snd msg) = None
     \<and> dispatch_race d e when host routing_key msg
         = (if None \<in> fst ` set ak then Inr (d, [])
            else case emit d e routing_key (snd msg) of
                   Inl x \<Rightarrow> Inl x
                 | Inr out \<Rightarrow> Inr (d\<lparr>active_keys := Some (ak @ [(None, when)])\<rparr>, [out]))"
proof -
  have k: "key_for_msg d (snd msg) = None" using assms by (simp add: key_for_msg_def)
  have "AList.update None when ak = ak @ [(None, when)]" if "None \<notin> fst ` set ak"
    using that by (simp add: update_fresh)
  then show ?thesis using k assms(3) by (simp add: dispatch_race_def split: sum.splits)
qed

theorem race_failed_key_is_key_None_witness:
  "key_code (Dispatcher (Some []) (failing_key_opts 5000000) []) = Some expr_div_zero
   \<and> expr_div_zero (G16 ''1'' 5) = (Inl ZeroDivisionError :: py_error + pyval option)
   \<and> dispatch_race
        ((Dispatcher (Some []) (failing_key_opts 5000000) [])\<lparr>active_keys := Some [(None, 0)]\<rparr>)
        (env_at 1000000) 1000000 ''B'' ''topic'' (2, G16 ''1'' 5)
       = Inr ((Dispatcher (Some []) (failing_key_opts 5000000) [])\<lparr>active_keys := Some [(None, 0)]\<rparr>, [])"
proof -
  define d where
    "d = (Dispatcher (Some []) (failing_key_opts 5000000) [])\<lparr>active_keys := Some [(None, 0)]\<rparr>"
  have h1: "key_code d = Some expr_div_zero"
    by (simp add: d_def Dispatcher_def failing_key_opts_def)
  have h2: "expr_div_zero (snd (2::nat, G16 ''1'' 5)) = (Inl ZeroDivisionError :: py_error + pyval option)"
    by (simp add: expr_div_zero_def)
  have h3: "active_keys d = Some [(None, 0)]" by (simp add: d_def)
  show ?thesis
    using race_failed_key_is_key_None [OF h1 h2 h3, of "env_at 1000000" 1000000 "''B''" "''topic''"]
      h1 h2
    by (simp add: d_def Dispatcher_def failing_key_opts_def)
qed

section \<open>Properties of Race mode\<close>

lemma dismiss_all_no_buffer:
  "msg_buffer d = None \<Longrightarrow> dismiss_all d e keys = Inr (d, [])"
  by (induction keys) (simp_all add: dismiss_active_key_def)

lemma delset_filter:
  assumes "distinct (map fst ak)"
  shows "filter (\<lambda>(key, when). key \<notin> set (map fst (filter (\<lambda>(key, when). when + h < now) ak))) ak
           = live h now ak"
  unfolding live_def
proof (rule filter_cong [OF refl])
  fix x assume x: "x \<in> set ak"
  obtain k w where kw: "x = (k, w)" by (cases x)
  have "k \<in> set (map fst (filter (\<lambda>(key, when). when + h < now) ak)) \<longleftrightarrow> w + h < now"
  proof
    assume "k \<in> set (map fst (filter (\<lambda>(key, when). when + h < now) ak))"
    then obtain w' where w': "(k, w') \<in> set ak" "w' + h < now" by auto
    have "(k, w) \<in> set ak" using x by (simp add: kw)
    then have "map_of ak k = Some w" by (rule map_of_is_SomeI [OF assms])
    moreover have "map_of ak k = Some w'" using w'(1) by (rule map_of_is_SomeI [OF assms])
    ultimately show "w + h < now" using w'(2) by simp
  next
    assume "w + h < now"
    then show "k \<in> set (map fst (filter (\<lambda>(key, when). when + h < now) ak))"
      using x kw by force
  qed
  then show "(case x of (key, when) \<Rightarrow> key \<notin> set (map fst (filter (\<lambda>(key, when). when + h < now) ak)))
     = (case x of (key, when) \<Rightarrow> \<not> (when + h < now))"
    by (simp add: kw)
qed

lemma clean_expired_race:
  assumes "msg_buffer d = None" and "active_keys d = Some ak" and "horizon d = Some h"
    and "distinct (map fst ak)"
  shows "clean_expired d e = Inr (d\<lparr>active_keys := Some (live h (t_clean e) ak)\<rparr>, [])"
  using assms delset_filter [OF assms(4), of h "t_clean e"]
  by (simp add: clean_expired_def dismiss_all_no_buffer)

lemma live_Nil: "live h now [] = []"
  by (simp add: live_def)

lemma distinct_live: "distinct (map fst ak) \<Longrightarrow> distinct (map fst (live h now ak))"
  by (simp add: live_def distinct_map_filter)

lemma call_clean_race:
  assumes "race_inv h d" and "active_keys d = Some ak"
  shows "(case active_keys d of Some (a # ak') \<Rightarrow> clean_expired d e | _ \<Rightarrow> Inr (d, []))
           = Inr (d\<lparr>active_keys := Some (live h (t_clean e) ak)\<rparr>, [])"
proof (cases ak)
  case Nil
  then show ?thesis using assms(2) by (simp add: live_Nil)
next
  case (Cons a ak')
  have "clean_expired d e = Inr (d\<lparr>active_keys := Some (live h (t_clean e) ak)\<rparr>, [])"
    using assms by (intro clean_expired_race) (auto simp: race_inv_def)
  then show ?thesis using assms(2) Cons by simp
qed

lemma max_sleep_total:
  "horizon d = Some h \<Longrightarrow> \<exists>wt. max_sleep_til_next_window d e = Inr wt"
  by (simp add: max_sleep_til_next_window_def split: option.splits list.splits)

lemma call_race_tick:
  assumes "race_inv h d" and "active_keys d = Some ak"
  shows "\<exists>wt. call d e Tick = Inr (d\<lparr>active_keys := Some (live h (t_clean e) ak)\<rparr>, [], wt)"
proof -
  have "horizon (d\<lparr>active_keys := Some (live h (t_clean e) ak)\<rparr>) = Some h"
    using assms(1) by (simp add: race_inv_def)
  from max_sleep_total [OF this, of e] show ?thesis
    unfolding call_def call_clean_race [OF assms] by auto
qed

lemma call_race_dropped:
  assumes "race_inv h d" and "active_keys d = Some ak"
    and "key_for_msg d (snd m) \<in> fst ` set (live h (t_clean e) ak)"
  shows "\<exists>wt. call d e (Deliver w host rk m)
           = Inr (d\<lparr>active_keys := Some (live h (t_clean e) ak)\<rparr>, [], wt)"
proof -
  define d1 where "d1 = d\<lparr>active_keys := Some (live h (t_clean e) ak)\<rparr>"
  have hz: "horizon d1 = Some h" and sc: "score_code d1 = SNone"
    and kc: "key_code d1 \<noteq> None" and ak1: "active_keys d1 = Some (live h (t_clean e) ak)"
    using assms(1) by (simp_all add: race_inv_def d1_def)
  have k: "key_for_msg d1 (snd m) = key_for_msg d (snd m)"
    by (simp add: key_for_msg_def d1_def)
  have r: "dispatch_race d1 e w host rk m = Inr (d1, [])"
    using assms(3) ak1 k by (simp add: dispatch_race_def)
  obtain wt where wt: "max_sleep_til_next_window d1 e = Inr wt"
    using max_sleep_total [OF hz] by blast
  show ?thesis
    unfolding call_def call_clean_race [OF assms(1,2)] d1_def [symmetric]
    using kc sc r wt by auto
qed

lemma call_race_emitted:
  assumes "race_inv h d" and "active_keys d = Some ak"
    and "key_for_msg d (snd m) \<notin> fst ` set (live h (t_clean e) ak)"
  shows "case emit d e rk (snd m) of
           Inl err \<Rightarrow> call d e (Deliver w host rk m) = Inl err
         | Inr out \<Rightarrow>
             (\<exists>wt. call d e (Deliver w host rk m)
                = Inr (d\<lparr>active_keys :=
                           Some (live h (t_clean e) ak @ [(key_for_msg d (snd m), w)])\<rparr>,
                       [out], wt))"
proof -
  define d1 where "d1 = d\<lparr>active_keys := Some (live h (t_clean e) ak)\<rparr>"
  define d2 where
    "d2 = d\<lparr>active_keys := Some (live h (t_clean e) ak @ [(key_for_msg d (snd m), w)])\<rparr>"
  have hz: "horizon d2 = Some h" and sc: "score_code d1 = SNone"
    and kc: "key_code d1 \<noteq> None" and ak1: "active_keys d1 = Some (live h (t_clean e) ak)"
    using assms(1) by (simp_all add: race_inv_def d1_def d2_def)
  have k: "key_for_msg d1 (snd m) = key_for_msg d (snd m)"
    by (simp add: key_for_msg_def d1_def)
  have em: "emit d1 e rk (snd m) = emit d e rk (snd m)"
    by (rule emit_cong) (simp_all add: d1_def)
  have upd: "d1\<lparr>active_keys := Some (AList.update (key_for_msg d (snd m)) w (live h (t_clean e) ak))\<rparr> = d2"
    using assms(3) by (simp add: d1_def d2_def update_fresh)
  have r: "dispatch_race d1 e w host rk m
     = (case emit d e rk (snd m) of Inl err \<Rightarrow> Inl err | Inr out \<Rightarrow> Inr (d2, [out]))"
    using assms(3) ak1 k em upd by (simp add: dispatch_race_def split: sum.splits)
  obtain wt where wt: "max_sleep_til_next_window d2 e = Inr wt"
    using max_sleep_total [OF hz] by blast
  show ?thesis
    unfolding call_def call_clean_race [OF assms(1,2)] d1_def [symmetric] d2_def [symmetric]
    using kc sc r wt by (auto split: sum.splits)
qed

lemma key_for_msg_cong: "key_code d' = key_code d \<Longrightarrow> key_for_msg d' = key_for_msg d"
  by (simp add: key_for_msg_def fun_eq_iff)

lemma mem_live: "(k, w) \<in> set ak \<Longrightarrow> \<not> (w + h < now) \<Longrightarrow> (k, w) \<in> set (live h now ak)"
  by (simp add: live_def)

lemma race_inv_update:
  "race_inv h d \<Longrightarrow> distinct (map fst ak') \<Longrightarrow> race_inv h (d\<lparr>active_keys := Some ak'\<rparr>)"
  by (simp add: race_inv_def)

lemma call_race_facts:
  assumes inv: "race_inv h d" and ak: "active_keys d = Some ak"
    and c: "call d e c = Inr (d', outs, wt)"
  shows "race_inv h d'" and "key_for_msg d' = key_for_msg d"
    and "\<exists>ak1. active_keys d' = Some ak1 \<and> set (live h (t_clean e) ak) \<subseteq> set ak1"
    and "c = Deliver w host rk m \<Longrightarrow> key_for_msg d (snd m) \<in> fst ` set (live h (t_clean e) ak)
           \<Longrightarrow> outs = []"
    and "c = Deliver w host rk m \<Longrightarrow> outs \<noteq> []
           \<Longrightarrow> \<exists>ak1. active_keys d' = Some ak1 \<and> (key_for_msg d (snd m), w) \<in> set ak1"
proof -
  define L where "L = live h (t_clean e) ak"
  have dak: "distinct (map fst ak)" using inv ak by (auto simp: race_inv_def)
  have dl: "distinct (map fst L)" unfolding L_def using dak by (rule distinct_live)
  have shape: "(d' = d\<lparr>active_keys := Some L\<rparr> \<and> outs = [])
     \<or> (\<exists>w' host' rk' m'. c = Deliver w' host' rk' m'
           \<and> key_for_msg d (snd m') \<notin> fst ` set L \<and> outs \<noteq> []
           \<and> d' = d\<lparr>active_keys := Some (L @ [(key_for_msg d (snd m'), w')])\<rparr>)"
  proof (cases c)
    case Tick
    then show ?thesis using call_race_tick [OF inv ak, of e] c by (auto simp: L_def)
  next
    case (Deliver w' host' rk' m')
    show ?thesis
    proof (cases "key_for_msg d (snd m') \<in> fst ` set L")
      case True
      then show ?thesis
        using call_race_dropped [OF inv ak, where e=e and m=m' and rk=rk' and w=w' and host=host']
          c Deliver by (auto simp: L_def)
    next
      case False
      then have nin: "key_for_msg d (snd m') \<notin> fst ` set (live h (t_clean e) ak)"
        by (simp add: L_def)
      show ?thesis
      proof (cases "emit d e rk' (snd m')")
        case (Inl err)
        then show ?thesis
          using call_race_emitted [OF inv ak nin, where rk=rk' and w=w' and host=host'] c Deliver
          by simp
      next
        case (Inr out)
        then have "d' = d\<lparr>active_keys := Some (L @ [(key_for_msg d (snd m'), w')])\<rparr> \<and> outs = [out]"
          using call_race_emitted [OF inv ak nin, where rk=rk' and w=w' and host=host'] c Deliver
          by (auto simp: L_def)
        then show ?thesis using Deliver False by blast
      qed
    qed
  qed
  have kf: "key_for_msg (d\<lparr>active_keys := x\<rparr>) = key_for_msg d" for x
    by (rule key_for_msg_cong) simp
  from shape show "race_inv h d'"
  proof
    assume "d' = d\<lparr>active_keys := Some L\<rparr> \<and> outs = []"
    then show ?thesis using race_inv_update [OF inv dl] by simp
  next
    assume "\<exists>w' host' rk' m'. c = Deliver w' host' rk' m'
           \<and> key_for_msg d (snd m') \<notin> fst ` set L \<and> outs \<noteq> []
           \<and> d' = d\<lparr>active_keys := Some (L @ [(key_for_msg d (snd m'), w')])\<rparr>"
    then obtain w' and m' :: msgobj where nin: "key_for_msg d (snd m') \<notin> fst ` set L"
      and d': "d' = d\<lparr>active_keys := Some (L @ [(key_for_msg d (snd m'), w')])\<rparr>" by blast
    have "distinct (map fst (L @ [(key_for_msg d (snd m'), w')]))" using dl nin by simp
    then show ?thesis unfolding d' by (rule race_inv_update [OF inv])
  qed
  from shape show "key_for_msg d' = key_for_msg d" using kf by auto
  from shape show "\<exists>ak1. active_keys d' = Some ak1 \<and> set (live h (t_clean e) ak) \<subseteq> set ak1"
    unfolding L_def [symmetric] by auto
  show "outs = []"
    if "c = Deliver w host rk m" "key_for_msg d (snd m) \<in> fst ` set (live h (t_clean e) ak)"
    using shape that unfolding L_def [symmetric] by auto
  show "\<exists>ak1. active_keys d' = Some ak1 \<and> (key_for_msg d (snd m), w) \<in> set ak1"
    if "c = Deliver w host rk m" "outs \<noteq> []"
    using shape that by auto
qed

lemma sorted_clock_head:
  assumes "sorted (map (\<lambda>ec. t_clean (fst ec)) ((e, c) # calls))" and "j < length calls"
    and "calls ! j = (ej, cj)"
  shows "t_clean e \<le> t_clean ej"
proof -
  have "\<forall>y \<in> set (map (\<lambda>ec. t_clean (fst ec)) calls). t_clean e \<le> y" using assms(1) by simp
  moreover have "t_clean ej \<in> set (map (\<lambda>ec. t_clean (fst ec)) calls)"
  proof -
    have "(ej, cj) \<in> set calls" using assms(2,3) by (metis nth_mem)
    then have "(\<lambda>ec. t_clean (fst ec)) (ej, cj) \<in> (\<lambda>ec. t_clean (fst ec)) ` set calls" by (rule imageI)
    then show ?thesis by simp
  qed
  ultimately show ?thesis by blast
qed

text \<open>
  While the window that \<open>w0\<close> opened for the key \<open>k\<close> is in the table, no message
  of that key is emitted; the window leaves the table only at a clock reading after
  \<open>w0 + h\<close>.
\<close>

lemma race_window_blocks:
  "race_inv h d \<Longrightarrow> active_keys d = Some ak \<Longrightarrow> (k, w0) \<in> set ak
   \<Longrightarrow> sorted (map (\<lambda>ec. t_clean (fst ec)) calls)
   \<Longrightarrow> run d calls = Inr (d', outss)
   \<Longrightarrow> j < length calls \<Longrightarrow> calls ! j = (ej, Deliver wj hj rkj mj)
   \<Longrightarrow> key_for_msg d (snd mj) = k \<Longrightarrow> outss ! j \<noteq> []
   \<Longrightarrow> w0 + h < t_clean ej"
proof (induction calls arbitrary: d ak j outss)
  case Nil
  then show ?case by simp
next
  case (Cons ec calls)
  obtain e c where ec: "ec = (e, c)" by (cases ec)
  obtain d1 outs wt outss1 where c1: "call d e c = Inr (d1, outs, wt)"
    and r1: "run d1 calls = Inr (d', outss1)" and os: "outss = outs # outss1"
    using Cons.prems(5) by (auto simp: ec split: sum.splits)
  note f = call_race_facts [OF Cons.prems(1) Cons.prems(2) c1]
  have srt: "sorted (map (\<lambda>ec. t_clean (fst ec)) calls)" using Cons.prems(4) by simp
  show ?case
  proof (cases j)
    case 0
    have cj: "c = Deliver wj hj rkj mj" using Cons.prems(7) by (simp add: 0 ec)
    have ne: "outs \<noteq> []" using Cons.prems(9) by (simp add: 0 os)
    show ?thesis
    proof (rule ccontr)
      assume "\<not> w0 + h < t_clean ej"
      then have "\<not> w0 + h < t_clean e" using Cons.prems(7) by (simp add: 0 ec)
      then have "(k, w0) \<in> set (live h (t_clean e) ak)"
        using Cons.prems(3) by (simp add: mem_live)
      then have "key_for_msg d (snd mj) \<in> fst ` set (live h (t_clean e) ak)"
        unfolding Cons.prems(8) by (rule image_eqI [rotated]) simp
      from f(4) [OF cj this] ne show False by simp
    qed
  next
    case (Suc j')
    have j': "j' < length calls" and cj: "calls ! j' = (ej, Deliver wj hj rkj mj)"
      and oj: "outss1 ! j' \<noteq> []"
      using Cons.prems(6,7,9) by (simp_all add: Suc os)
    have le: "t_clean e \<le> t_clean ej"
      using Cons.prems(4) j' cj unfolding ec by (rule sorted_clock_head)
    show ?thesis
    proof (cases "w0 + h < t_clean e")
      case True
      then show ?thesis using le by simp
    next
      case False
      then have mem: "(k, w0) \<in> set (live h (t_clean e) ak)"
        using Cons.prems(3) by (simp add: mem_live)
      obtain ak1 where ak1: "active_keys d1 = Some ak1" and mem1: "(k, w0) \<in> set ak1"
        using f(3) mem by blast
      have k1: "key_for_msg d1 (snd mj) = k" using Cons.prems(8) by (simp add: f(2))
      show ?thesis
        using f(1) ak1 mem1 srt r1 j' cj k1 oj by (rule Cons.IH)
    qed
  qed
qed

lemma race_no_second_emit:
  "race_inv h d \<Longrightarrow> sorted (map (\<lambda>ec. t_clean (fst ec)) calls)
   \<Longrightarrow> run d calls = Inr (d', outss)
   \<Longrightarrow> i < j \<Longrightarrow> j < length calls
   \<Longrightarrow> calls ! i = (ei, Deliver wi hi rki mi) \<Longrightarrow> calls ! j = (ej, Deliver wj hj rkj mj)
   \<Longrightarrow> key_for_msg d (snd mi) = key_for_msg d (snd mj)
   \<Longrightarrow> outss ! i \<noteq> [] \<Longrightarrow> outss ! j \<noteq> []
   \<Longrightarrow> wi + h < t_clean ej"
proof (induction calls arbitrary: d i j outss)
  case Nil
  then show ?case by simp
next
  case (Cons ec calls)
  obtain e c where ec: "ec = (e, c)" by (cases ec)
  obtain d1 outs wt outss1 where c1: "call d e c = Inr (d1, outs, wt)"
    and r1: "run d1 calls = Inr (d', outss1)" and os: "outss = outs # outss1"
    using Cons.prems(3) by (auto simp: ec split: sum.splits)
  obtain ak where ak: "active_keys d = Some ak" using Cons.prems(1) by (auto simp: race_inv_def)
  note f = call_race_facts [OF Cons.prems(1) ak c1]
  obtain j' where j: "j = Suc j'" using Cons.prems(4) by (cases j) auto
  have srt: "sorted (map (\<lambda>ec. t_clean (fst ec)) calls)" using Cons.prems(2) by simp
  have j': "j' < length calls" and cj: "calls ! j' = (ej, Deliver wj hj rkj mj)"
    and oj: "outss1 ! j' \<noteq> []"
    using Cons.prems(5,7,10) by (simp_all add: j os)
  show ?case
  proof (cases i)
    case 0
    have c: "c = Deliver wi hi rki mi" and ne: "outs \<noteq> []"
      using Cons.prems(6,9) by (simp_all add: 0 ec os)
    obtain ak1 where ak1: "active_keys d1 = Some ak1"
      and mem1: "(key_for_msg d (snd mi), wi) \<in> set ak1"
      using f(5) [OF c ne] by blast
    have k1: "key_for_msg d1 (snd mj) = key_for_msg d (snd mi)"
      using Cons.prems(8) by (simp add: f(2))
    show ?thesis
      using f(1) ak1 mem1 srt r1 j' cj k1 oj by (rule race_window_blocks)
  next
    case (Suc i')
    have i': "i' < j'" and ci: "calls ! i' = (ei, Deliver wi hi rki mi)"
      and oi: "outss1 ! i' \<noteq> []"
      using Cons.prems(4,6,9) by (simp_all add: Suc j os)
    have k1: "key_for_msg d1 (snd mi) = key_for_msg d1 (snd mj)"
      using Cons.prems(8) by (simp add: f(2))
    show ?thesis
      using f(1) srt r1 i' j' ci cj k1 oi oj by (rule Cons.IH)
  qed
qed

lemma run_race_inv:
  "race_inv h d \<Longrightarrow> run d calls = Inr (d', outss)
   \<Longrightarrow> race_inv h d' \<and> key_for_msg d' = key_for_msg d"
proof (induction calls arbitrary: d outss)
  case Nil
  then show ?case by simp
next
  case (Cons ec calls)
  obtain e c where ec: "ec = (e, c)" by (cases ec)
  obtain d1 outs wt outss1 where c1: "call d e c = Inr (d1, outs, wt)"
    and r1: "run d1 calls = Inr (d', outss1)"
    using Cons.prems(2) by (auto simp: ec split: sum.splits)
  obtain ak where ak: "active_keys d = Some ak" using Cons.prems(1) by (auto simp: race_inv_def)
  note f = call_race_facts [OF Cons.prems(1) ak c1]
  show ?case using Cons.IH [OF f(1) r1] f(2) by simp
qed

lemma race_inv_init:
  assumes "o_key opts = Some kc" and "o_score opts = None"
  shows "race_inv (case o_window opts of Some w \<Rightarrow> w | None \<Rightarrow> DEFAULT_HORIZON_SEC)
           (Dispatcher rules opts extra)"
  using assms by (simp add: race_inv_def Dispatcher_def split: option.splits)

text \<open>
  C2, amended. In every state \<open>d\<close> that a dispatcher in Race mode reaches: a message
  whose key has a window that is still open at the clock reading of the call is
  dropped; a message whose key has none is emitted in that call (or \<open>emit\<close> raises)
  and opens a window at its reception time \<open>when\<close>. And along the run, with a clock
  that does not go backwards: when two messages of the same key are both emitted, the
  later one is emitted at a clock reading more than \<open>horizon\<close> after the reception
  time of the earlier one. The window is anchored at the reception time that the
  worker stamped, not at the time of the emit.
\<close>

theorem race_window_dedup:
  assumes "o_key opts = Some kc" and "o_score opts = None"
    and "d0 = Dispatcher rules opts extra"
    and "run d0 calls = Inr (d, outss)"
  shows "\<exists>ak h. active_keys d = Some ak \<and> horizon d = Some h
     \<and> (\<forall>e w host rk m.
          (key_for_msg d (snd m) \<in> fst ` set (live h (t_clean e) ak)
             \<longrightarrow> (\<exists>wt. call d e (Deliver w host rk m)
                    = Inr (d\<lparr>active_keys := Some (live h (t_clean e) ak)\<rparr>, [], wt)))
        \<and> (key_for_msg d (snd m) \<notin> fst ` set (live h (t_clean e) ak)
             \<longrightarrow> (case emit d e rk (snd m) of
                    Inl err \<Rightarrow> call d e (Deliver w host rk m) = Inl err
                  | Inr out \<Rightarrow>
                      (\<exists>wt. call d e (Deliver w host rk m)
                         = Inr (d\<lparr>active_keys :=
                                    Some (live h (t_clean e) ak @ [(key_for_msg d (snd m), w)])\<rparr>,
                                [out], wt)))))
     \<and> (sorted (map (\<lambda>ec. t_clean (fst ec)) calls) \<longrightarrow>
         (\<forall>i j ei wi hi rki mi ej wj hj rkj mj.
            i < j \<and> j < length calls
            \<and> calls ! i = (ei, Deliver wi hi rki mi) \<and> calls ! j = (ej, Deliver wj hj rkj mj)
            \<and> key_for_msg d (snd mi) = key_for_msg d (snd mj)
            \<and> outss ! i \<noteq> [] \<and> outss ! j \<noteq> []
            \<longrightarrow> wi + h < t_clean ej))"
proof -
  define h where "h = (case o_window opts of Some w \<Rightarrow> w | None \<Rightarrow> DEFAULT_HORIZON_SEC)"
  have inv0: "race_inv h d0"
    unfolding h_def assms(3) using assms(1,2) by (rule race_inv_init)
  have inv: "race_inv h d" and kf: "key_for_msg d = key_for_msg d0"
    using run_race_inv [OF inv0 assms(4)] by simp_all
  obtain ak where ak: "active_keys d = Some ak" using inv by (auto simp: race_inv_def)
  have hz: "horizon d = Some h" using inv by (simp add: race_inv_def)
  have step1: "\<exists>wt. call d e (Deliver w host rk m)
                    = Inr (d\<lparr>active_keys := Some (live h (t_clean e) ak)\<rparr>, [], wt)"
    if "key_for_msg d (snd m) \<in> fst ` set (live h (t_clean e) ak)" for e w host rk m
    using inv ak that by (rule call_race_dropped)
  have step2: "case emit d e rk (snd m) of
                    Inl err \<Rightarrow> call d e (Deliver w host rk m) = Inl err
                  | Inr out \<Rightarrow>
                      (\<exists>wt. call d e (Deliver w host rk m)
                         = Inr (d\<lparr>active_keys :=
                                    Some (live h (t_clean e) ak @ [(key_for_msg d (snd m), w)])\<rparr>,
                                [out], wt))"
    if "key_for_msg d (snd m) \<notin> fst ` set (live h (t_clean e) ak)" for e w host rk m
    using inv ak that by (rule call_race_emitted)
  have t1: "wi + h < t_clean ej"
    if "sorted (map (\<lambda>ec. t_clean (fst ec)) calls)" "i < j" "j < length calls"
      "calls ! i = (ei, Deliver wi hi rki mi)" "calls ! j = (ej, Deliver wj hj rkj mj)"
      "key_for_msg d (snd mi) = key_for_msg d (snd mj)" "outss ! i \<noteq> []" "outss ! j \<noteq> []"
    for i j ei wi hi rki mi ej wj hj rkj mj
    using inv0 that(1) assms(4) that(2-5) that(6) [unfolded kf] that(7,8)
    by (rule race_no_second_emit)
  have A: "\<forall>e w host rk m.
          (key_for_msg d (snd m) \<in> fst ` set (live h (t_clean e) ak)
             \<longrightarrow> (\<exists>wt. call d e (Deliver w host rk m)
                    = Inr (d\<lparr>active_keys := Some (live h (t_clean e) ak)\<rparr>, [], wt)))
        \<and> (key_for_msg d (snd m) \<notin> fst ` set (live h (t_clean e) ak)
             \<longrightarrow> (case emit d e rk (snd m) of
                    Inl err \<Rightarrow> call d e (Deliver w host rk m) = Inl err
                  | Inr out \<Rightarrow>
                      (\<exists>wt. call d e (Deliver w host rk m)
                         = Inr (d\<lparr>active_keys :=
                                    Some (live h (t_clean e) ak @ [(key_for_msg d (snd m), w)])\<rparr>,
                                [out], wt))))"
    by (intro allI conjI impI step1 step2)
  have B: "sorted (map (\<lambda>ec. t_clean (fst ec)) calls) \<longrightarrow>
         (\<forall>i j ei wi hi rki mi ej wj hj rkj mj.
            i < j \<and> j < length calls
            \<and> calls ! i = (ei, Deliver wi hi rki mi) \<and> calls ! j = (ej, Deliver wj hj rkj mj)
            \<and> key_for_msg d (snd mi) = key_for_msg d (snd mj)
            \<and> outss ! i \<noteq> [] \<and> outss ! j \<noteq> []
            \<longrightarrow> wi + h < t_clean ej)"
  proof (intro impI allI)
    fix i j ei wi hi rki mi ej wj hj rkj mj
    assume srt: "sorted (map (\<lambda>ec. t_clean (fst ec)) calls)"
    assume "i < j \<and> j < length calls
            \<and> calls ! i = (ei, Deliver wi hi rki mi) \<and> calls ! j = (ej, Deliver wj hj rkj mj)
            \<and> key_for_msg d (snd mi) = key_for_msg d (snd mj)
            \<and> outss ! i \<noteq> [] \<and> outss ! j \<noteq> []"
    then show "wi + h < t_clean ej"
      by (elim conjE) (rule t1 [OF srt])
  qed
  show ?thesis
    by (rule exI [of _ ak], rule exI [of _ h]) (intro conjI ak hz A B)
qed

theorem race_window_dedup_witness:
  "o_key (race_opts 1000000) = Some key_sat \<and> o_score (race_opts 1000000) = None
   \<and> map_sum id snd (run (Dispatcher (Some []) (race_opts 1000000) []) S1_calls)
       = Inr [[Printed ''1''], [], [Printed ''3'']]
   \<and> sorted (map (\<lambda>ec. t_clean (fst ec)) S1_calls)
   \<and> (0::int) + 1000000 < t_clean (env_at 1200000)"
proof -
  define d where "d = (Dispatcher (Some []) (race_opts 1000000) [])
      \<lparr>active_keys := Some [(Some (PStr ''G16''), 1200000)]\<rparr>"
  have h1: "o_key (race_opts 1000000) = Some key_sat" and h2: "o_score (race_opts 1000000) = None"
    by (simp_all add: race_opts_def)
  have r: "run (Dispatcher (Some []) (race_opts 1000000) []) S1_calls
             = Inr (d, [[Printed ''1''], [], [Printed ''3'']])"
    by (simp add: S1_calls_def d_def race_opts_def key_sat_def key_for_msg_def
        Dispatcher_def call_def dispatch_race_def clean_expired_def env_at_def emit_def
        add_default_metadata_def setdefault_def Transforms_call_def G16_def json_emit_template_t
        max_sleep_til_next_window_def dismiss_active_key_def)
  have s: "sorted (map (\<lambda>ec. t_clean (fst ec)) S1_calls)"
    by (simp add: S1_calls_def env_at_def)
  obtain ak h where hz: "horizon d = Some h"
    and t1: "sorted (map (\<lambda>ec. t_clean (fst ec)) S1_calls) \<longrightarrow>
         (\<forall>i j ei wi hi rki mi ej wj hj rkj mj.
            i < j \<and> j < length S1_calls
            \<and> S1_calls ! i = (ei, Deliver wi hi rki mi) \<and> S1_calls ! j = (ej, Deliver wj hj rkj mj)
            \<and> key_for_msg d (snd mi) = key_for_msg d (snd mj)
            \<and> [[Printed ''1''], [], [Printed ''3'']] ! i \<noteq> []
            \<and> [[Printed ''1''], [], [Printed ''3'']] ! j \<noteq> []
            \<longrightarrow> wi + h < t_clean ej)"
    using race_window_dedup [OF h1 h2 refl r] by blast
  have h: "h = 1000000" using hz by (simp add: d_def Dispatcher_def race_opts_def)
  have "(0::int) + h < t_clean (env_at 1200000)"
    using t1 [rule_format, OF s, of 0 2 "env_at 0" 0 "''A''" "''topic''" "(1, G16 ''1'' 5)"
        "env_at 1200000" 1200000 "''A''" "''topic''" "(3, G16 ''3'' 5)"]
    by (simp add: S1_calls_def key_for_msg_def d_def Dispatcher_def race_opts_def key_sat_def G16_def)
  then show ?thesis using h1 h2 r s by (simp add: h)
qed

text \<open>
  C2, as stated, fails. With a horizon of five seconds, a message received at 0 s is
  dispatched (and emitted) at 3 s, after a wait in the queue; a message of the same
  key received at 4 s is dispatched at 5.5 s. The first window, anchored at 0 s, has
  expired (0 + 5 < 5.5), so the second message is emitted too: 2.5 s after the first
  emit, and received 4 s after the first was received.
\<close>

theorem race_emit_within_horizon_counterexample:
  "map_sum id snd
     (run (Dispatcher (Some []) (race_opts 5000000) [])
        [(env_at 3000000, Deliver 0 ''A'' ''topic'' (1, G16 ''1'' 5)),
         (env_at 5500000, Deliver 4000000 ''B'' ''topic'' (2, G16 ''2'' 5))])
     = Inr [[Printed ''1''], [Printed ''2'']]
   \<and> key_for_msg (Dispatcher (Some []) (race_opts 5000000) []) (G16 ''1'' 5)
       = key_for_msg (Dispatcher (Some []) (race_opts 5000000) []) (G16 ''2'' 5)
   \<and> t_clean (env_at 5500000) - t_clean (env_at 3000000) < (5000000::int)
   \<and> (4000000::int) - 0 < 5000000"
  by (simp add: race_opts_def key_sat_def key_for_msg_def
      Dispatcher_def call_def dispatch_race_def clean_expired_def env_at_def emit_def
      add_default_metadata_def setdefault_def Transforms_call_def G16_def json_emit_template_t
      max_sleep_til_next_window_def dismiss_active_key_def)

section \<open>Properties of Compete mode\<close>

lemma reduce_from_select:
  assumes "\<forall>a \<in> S. \<forall>b \<in> S. f a b = Inr a \<or> f a b = Inr b"
  shows "acc \<in> S \<Longrightarrow> set xs \<subseteq> S \<Longrightarrow> \<exists>w \<in> insert acc (set xs). reduce_from f acc xs = Inr w"
proof (induction xs arbitrary: acc)
  case Nil
  then show ?case by simp
next
  case (Cons x xs)
  have x: "x \<in> S" and xs: "set xs \<subseteq> S" using Cons.prems(2) by simp_all
  from assms Cons.prems(1) x have "f acc x = Inr acc \<or> f acc x = Inr x" by blast
  then show ?case
  proof
    assume a: "f acc x = Inr acc"
    from Cons.IH [OF Cons.prems(1) xs] show ?thesis by (auto simp: a)
  next
    assume a: "f acc x = Inr x"
    from Cons.IH [OF x xs] show ?thesis by (auto simp: a)
  qed
qed

lemma reduce_from_max:
  fixes g :: "'a \<Rightarrow> int"
  assumes "\<forall>a \<in> S. \<forall>b \<in> S. f a b = Inr (if g a \<ge> g b then a else b)"
  shows "acc \<in> S \<Longrightarrow> set xs \<subseteq> S \<Longrightarrow>
    \<exists>w \<in> insert acc (set xs). reduce_from f acc xs = Inr w
       \<and> g acc \<le> g w \<and> (\<forall>x \<in> set xs. g x \<le> g w)"
proof (induction xs arbitrary: acc)
  case Nil
  then show ?case by simp
next
  case (Cons x xs)
  have x: "x \<in> S" and xs: "set xs \<subseteq> S" using Cons.prems(2) by simp_all
  have fx: "f acc x = Inr (if g acc \<ge> g x then acc else x)"
    using assms Cons.prems(1) x by blast
  show ?case
  proof (cases "g acc \<ge> g x")
    case True
    obtain w where "w \<in> insert acc (set xs)" "reduce_from f acc xs = Inr w"
      "g acc \<le> g w" "\<forall>y \<in> set xs. g y \<le> g w"
      using Cons.IH [OF Cons.prems(1) xs] by blast
    then show ?thesis using True fx by (intro bexI [of _ w]) auto
  next
    case False
    obtain w where "w \<in> insert x (set xs)" "reduce_from f x xs = Inr w"
      "g x \<le> g w" "\<forall>y \<in> set xs. g y \<le> g w"
      using Cons.IH [OF x xs] by blast
    then show ?thesis using False fx by (intro bexI [of _ w]) auto
  qed
qed

lemma reduce_nonempty:
  "xs \<noteq> [] \<Longrightarrow> reduce f xs = reduce_from f (hd xs) (tl xs)"
  by (cases xs) simp_all

lemma score_of_comparable:
  assumes "compare_fn d = None" and "comparable d a a"
  shows "\<exists>s. score_for_msg d (snd a) = Some s"
  using assms by (auto simp: comparable_def compare_def split: option.splits)

lemma compare_scalar:
  assumes "compare_fn d = None"
    and "score_for_msg d (snd a) = Some s" and "score_for_msg d (snd b) = Some s'"
  shows "compare d a b = Inr (if s \<ge> s' then a else b)"
  using assms by (simp add: compare_def)

text \<open>The winner of a non-empty list of pairwise comparable messages.\<close>

lemma choose_msg_select:
  assumes ne: "ms \<noteq> []" and perm: "mset (shuffle e ms) = mset ms"
    and sc: "score_code d \<noteq> SNone"
    and cmp: "\<forall>a \<in> set ms. \<forall>b \<in> set ms. comparable d a b"
  shows "\<exists>w \<in> set ms. choose_msg d e ms = Inr w"
proof -
  define ms' where "ms' = shuffle e ms"
  have set': "set ms' = set ms" using perm unfolding ms'_def by (rule mset_eq_setD)
  have ne': "ms' \<noteq> []" using ne set' by auto
  have ch: "choose_msg d e ms = reduce_from (compare d) (hd ms') (tl ms')"
    using sc ne' by (cases "score_code d")
      (simp_all add: choose_msg_def ms'_def [symmetric] reduce_nonempty)
  have c1: "\<forall>a \<in> set ms'. \<forall>b \<in> set ms'. compare d a b = Inr a \<or> compare d a b = Inr b"
    using cmp unfolding set' comparable_def by simp
  have c2: "hd ms' \<in> set ms'" using ne' by simp
  have c3: "set (tl ms') \<subseteq> set ms'" using ne' by (cases ms') auto
  obtain w where w: "w \<in> insert (hd ms') (set (tl ms'))"
    "reduce_from (compare d) (hd ms') (tl ms') = Inr w"
    using reduce_from_select [OF c1 c2 c3] by blast
  have ins: "insert (hd ms') (set (tl ms')) = set ms'" using ne' by (cases ms') auto
  have "w \<in> set ms" using w(1) ins set' by simp
  moreover have "choose_msg d e ms = Inr w" using ch w(2) by simp
  ultimately show ?thesis by blast
qed

lemma choose_msg_max:
  assumes ne: "ms \<noteq> []" and perm: "mset (shuffle e ms) = mset ms"
    and sc: "score_code d = SCode sf" and cf: "compare_fn d = None"
    and cmp: "\<forall>a \<in> set ms. \<forall>b \<in> set ms. comparable d a b"
  shows "\<exists>w \<in> set ms. \<exists>s. choose_msg d e ms = Inr w \<and> score_for_msg d (snd w) = Some s
           \<and> (\<forall>m \<in> set ms. \<exists>s'. score_for_msg d (snd m) = Some s' \<and> s' \<le> s)"
proof -
  define ms' where "ms' = shuffle e ms"
  define g where "g m = the (score_for_msg d (snd m))" for m :: msgobj
  have set': "set ms' = set ms" using perm unfolding ms'_def by (rule mset_eq_setD)
  have ne': "ms' \<noteq> []" using ne set' by auto
  have ch: "choose_msg d e ms = reduce_from (compare d) (hd ms') (tl ms')"
    using sc ne' by (simp add: choose_msg_def ms'_def [symmetric] reduce_nonempty)
  have sco: "score_for_msg d (snd m) = Some (g m)" if "m \<in> set ms'" for m
  proof -
    have "comparable d m m" using cmp that set' by simp
    from score_of_comparable [OF cf this] show ?thesis by (auto simp: g_def)
  qed
  have c1: "\<forall>a \<in> set ms'. \<forall>b \<in> set ms'. compare d a b = Inr (if g a \<ge> g b then a else b)"
    using compare_scalar [OF cf sco sco] by blast
  have c2: "hd ms' \<in> set ms'" using ne' by simp
  have c3: "set (tl ms') \<subseteq> set ms'" using ne' by (cases ms') auto
  obtain w where w: "w \<in> insert (hd ms') (set (tl ms'))"
    "reduce_from (compare d) (hd ms') (tl ms') = Inr w"
    "g (hd ms') \<le> g w" "\<forall>x \<in> set (tl ms'). g x \<le> g w"
    using reduce_from_max [OF c1 c2 c3] by blast
  have ins: "insert (hd ms') (set (tl ms')) = set ms'" using ne' by (cases ms') auto
  have wm: "w \<in> set ms'" using w(1) ins by simp
  have all: "\<forall>m \<in> set ms'. g m \<le> g w"
  proof
    fix m assume "m \<in> set ms'"
    then have "m = hd ms' \<or> m \<in> set (tl ms')" using ins by auto
    then show "g m \<le> g w" using w(3,4) by auto
  qed
  have f1: "choose_msg d e ms = Inr w" using ch w(2) by simp
  have f2: "score_for_msg d (snd w) = Some (g w)" using sco wm by simp
  have f3: "\<forall>m \<in> set ms. \<exists>s'. score_for_msg d (snd m) = Some s' \<and> s' \<le> g w"
    using sco all set' by auto
  have f4: "w \<in> set ms" using wm set' by simp
  show ?thesis
    by (rule bexI [OF _ f4], rule exI [of _ "g w"]) (intro conjI f1 f2 f3)
qed

lemma score_for_msg_cong:
  assumes "score_code d' = score_code d"
  shows "score_for_msg d' m = score_for_msg d m"
  unfolding score_for_msg_def assms ..

lemma compare_cong:
  assumes "score_code d' = score_code d" and "compare_fn d' = compare_fn d"
  shows "compare d' = compare d"
proof (intro ext)
  fix a b
  show "compare d' a b = compare d a b"
    unfolding compare_def assms(2) score_for_msg_cong [OF assms(1)] ..
qed

lemma choose_msg_cong:
  assumes "score_code d' = score_code d" and "compare_fn d' = compare_fn d"
  shows "choose_msg d' e ms = choose_msg d e ms"
  unfolding choose_msg_def assms(1) compare_cong [OF assms] ..

lemma lut_alt:
  "(\<lambda>(when, host, routing_key, msg). (fst msg, (host, routing_key)))
     = (\<lambda>c :: candidate. (fst (c_msg c), (c_host c, c_rk c)))"
  by (auto simp: c_msg_def c_host_def c_rk_def fun_eq_iff)

lemma msgs_alt: "(\<lambda>(when, host, routing_key, msg). msg) = c_msg"
  by (auto simp: c_msg_def fun_eq_iff)

lemma lut_lookup:
  assumes "distinct (map (\<lambda>c. fst (c_msg c)) cs)" and "c \<in> set cs"
  shows "map_of (rev (map (\<lambda>c. (fst (c_msg c), (c_host c, c_rk c))) cs)) (fst (c_msg c))
           = Some (c_host c, c_rk c)"
proof (rule map_of_is_SomeI)
  show "distinct (map fst (rev (map (\<lambda>c. (fst (c_msg c), (c_host c, c_rk c))) cs)))"
    using assms(1) by (simp add: rev_map [symmetric] comp_def)
  show "(fst (c_msg c), c_host c, c_rk c)
          \<in> set (rev (map (\<lambda>c. (fst (c_msg c), (c_host c, c_rk c))) cs))"
    using assms(2) by auto
qed

lemma dismiss_unfold:
  assumes "msg_buffer d = Some buf" and "map_of buf key = Some cs" and "cs \<noteq> []"
  shows "dismiss_active_key d e key =
     (case choose_msg d e (map c_msg cs) of
        Inl err \<Rightarrow> Inl err
      | Inr winner \<Rightarrow>
          (case map_of (rev (map (\<lambda>c. (fst (c_msg c), (c_host c, c_rk c))) cs)) (fst winner) of
             None \<Rightarrow> Inl KeyError
           | Some (host, routing_key) \<Rightarrow>
               (case emit d e routing_key (snd winner) of
                  Inl err \<Rightarrow> Inl err
                | Inr out \<Rightarrow> Inr (d\<lparr>msg_buffer := Some (AList.delete key buf)\<rparr>, [out]))))"
proof -
  obtain c cs' where cs: "cs = c # cs'" using assms(3) by (cases cs) auto
  have ent: "map_of buf key = Some (c # cs')" using assms(2) by (simp add: cs)
  have ch: "choose_msg (d\<lparr>msg_buffer := Some (AList.delete key buf)\<rparr>) e ms = choose_msg d e ms"
    for ms by (rule choose_msg_cong) simp_all
  have em: "emit (d\<lparr>msg_buffer := Some (AList.delete key buf)\<rparr>) e rk m = emit d e rk m"
    for rk m by (rule emit_cong) simp_all
  show ?thesis
    unfolding dismiss_active_key_def assms(1) option.case ent list.case Let_def
      lut_alt msgs_alt ch em cs
    by (rule refl)
qed

lemma dismiss_shape:
  assumes "msg_buffer d = Some buf" and "map_of buf key = Some cs" and "cs \<noteq> []"
    and "dismiss_active_key d e key = Inr (d1, outs)"
  shows "d1 = d\<lparr>msg_buffer := Some (AList.delete key buf)\<rparr> \<and> length outs = 1"
  using assms(4) unfolding dismiss_unfold [OF assms(1-3)]
  by (auto split: sum.splits option.splits)

lemma dismiss_total:
  assumes buf: "msg_buffer d = Some buf" and ent: "map_of buf key = Some cs" and ne: "cs \<noteq> []"
    and did: "distinct (map (\<lambda>c. fst (c_msg c)) cs)"
    and perm: "\<forall>xs. mset (shuffle e xs) = mset xs"
    and sc: "score_code d \<noteq> SNone"
    and cf: "(\<exists>sf. score_code d = SCode sf) \<longrightarrow> compare_fn d = None"
    and cmp: "\<forall>a \<in> set cs. \<forall>b \<in> set cs. comparable d (c_msg a) (c_msg b)"
    and em: "\<forall>c \<in> set cs. \<exists>out. emit d e (c_rk c) (snd (c_msg c)) = Inr out"
  shows "\<exists>c \<in> set cs. \<exists>out.
           dismiss_active_key d e key = Inr (d\<lparr>msg_buffer := Some (AList.delete key buf)\<rparr>, [out])
         \<and> emit d e (c_rk c) (snd (c_msg c)) = Inr out
         \<and> ((\<exists>sf. score_code d = SCode sf) \<longrightarrow>
              (\<exists>s. score_for_msg d (snd (c_msg c)) = Some s
                 \<and> (\<forall>c' \<in> set cs. \<exists>s'. score_for_msg d (snd (c_msg c')) = Some s' \<and> s' \<le> s)))"
proof -
  have ne': "map c_msg cs \<noteq> []" using ne by simp
  have perm': "mset (shuffle e (map c_msg cs)) = mset (map c_msg cs)" using perm by blast
  have cmp': "\<forall>a \<in> set (map c_msg cs). \<forall>b \<in> set (map c_msg cs). comparable d a b"
    using cmp by auto
  have "\<exists>w \<in> set (map c_msg cs). choose_msg d e (map c_msg cs) = Inr w
          \<and> ((\<exists>sf. score_code d = SCode sf) \<longrightarrow>
              (\<exists>s. score_for_msg d (snd w) = Some s
                 \<and> (\<forall>m \<in> set (map c_msg cs). \<exists>s'. score_for_msg d (snd m) = Some s' \<and> s' \<le> s)))"
  proof (cases "\<exists>sf. score_code d = SCode sf")
    case True
    then obtain sf where sf: "score_code d = SCode sf" by blast
    have cf': "compare_fn d = None" using cf True by blast
    from choose_msg_max [OF ne' perm' sf cf' cmp'] show ?thesis by blast
  next
    case False
    from choose_msg_select [OF ne' perm' sc cmp'] show ?thesis using False by blast
  qed
  then obtain w where wm: "w \<in> set (map c_msg cs)" and ch: "choose_msg d e (map c_msg cs) = Inr w"
    and mx: "(\<exists>sf. score_code d = SCode sf) \<longrightarrow>
              (\<exists>s. score_for_msg d (snd w) = Some s
                 \<and> (\<forall>m \<in> set (map c_msg cs). \<exists>s'. score_for_msg d (snd m) = Some s' \<and> s' \<le> s))"
    by blast
  obtain c where c: "c \<in> set cs" and cw: "c_msg c = w" using wm by auto
  obtain out where out: "emit d e (c_rk c) (snd (c_msg c)) = Inr out" using em c by blast
  have lut: "map_of (rev (map (\<lambda>c. (fst (c_msg c), (c_host c, c_rk c))) cs)) (fst w)
           = Some (c_host c, c_rk c)"
    using lut_lookup [OF did c] by (simp add: cw)
  have run: "dismiss_active_key d e key
               = Inr (d\<lparr>msg_buffer := Some (AList.delete key buf)\<rparr>, [out])"
    unfolding dismiss_unfold [OF buf ent ne] using ch lut out by (simp add: cw [symmetric])
  have mx': "(\<exists>sf. score_code d = SCode sf) \<longrightarrow>
              (\<exists>s. score_for_msg d (snd (c_msg c)) = Some s
                 \<and> (\<forall>c' \<in> set cs. \<exists>s'. score_for_msg d (snd (c_msg c')) = Some s' \<and> s' \<le> s))"
    using mx by (simp add: cw)
  show ?thesis
    by (rule bexI [OF _ c], rule exI [of _ out]) (intro conjI run out mx')
qed

lemma can_compete_cong:
  assumes "score_code d' = score_code d" and "compare_fn d' = compare_fn d"
    and "transforms d' = transforms d" and "callback d' = callback d"
    and "json_format_str d' = json_format_str d"
    and "extra_default_payload d' = extra_default_payload d"
  shows "can_compete d' e cs = can_compete d e cs"
proof -
  have em: "emit d' e rk m = emit d e rk m" for rk m
    using assms(3-6) by (rule emit_cong)
  show ?thesis
    unfolding can_compete_def comparable_def compare_cong [OF assms(1,2)] em ..
qed

lemma wins_cong:
  assumes "score_code d' = score_code d"
    and "transforms d' = transforms d" and "callback d' = callback d"
    and "json_format_str d' = json_format_str d"
    and "extra_default_payload d' = extra_default_payload d"
  shows "wins d' e cs c out = wins d e cs c out"
proof -
  have em: "emit d' e rk m = emit d e rk m" for rk m
    using assms(2-5) by (rule emit_cong)
  show ?thesis
    unfolding wins_def em assms(1) score_for_msg_cong [OF assms(1)] ..
qed

lemma dismiss_wins:
  assumes buf: "msg_buffer d = Some buf" and ent: "map_of buf key = Some cs" and ne: "cs \<noteq> []"
    and did: "distinct (map (\<lambda>c. fst (c_msg c)) cs)"
    and perm: "\<forall>xs. mset (shuffle e xs) = mset xs"
    and sc: "score_code d \<noteq> SNone"
    and cf: "(\<exists>sf. score_code d = SCode sf) \<longrightarrow> compare_fn d = None"
    and cc: "can_compete d e cs"
  shows "\<exists>c out.
           dismiss_active_key d e key = Inr (d\<lparr>msg_buffer := Some (AList.delete key buf)\<rparr>, [out])
         \<and> wins d e cs c out"
proof -
  have cmp: "\<forall>a \<in> set cs. \<forall>b \<in> set cs. comparable d (c_msg a) (c_msg b)"
    and em: "\<forall>c \<in> set cs. \<exists>out. emit d e (c_rk c) (snd (c_msg c)) = Inr out"
    using cc by (simp_all add: can_compete_def)
  from dismiss_total [OF buf ent ne did perm sc cf cmp em]
  show ?thesis unfolding wins_def by blast
qed

lemma delete_filter: "AList.delete k buf = filter (\<lambda>(k', v). k' \<noteq> k) buf"
  by (induction buf) auto

lemma map_of_delete_other: "k' \<noteq> k \<Longrightarrow> map_of (AList.delete k buf) k' = map_of buf k'"
  by (simp add: AList.delete_conv)

lemma record_buffer_same: "msg_buffer d = Some buf \<Longrightarrow> d\<lparr>msg_buffer := Some buf\<rparr> = d"
  by simp

lemma dismiss_all_shape:
  "msg_buffer d = Some buf \<Longrightarrow> distinct ks
   \<Longrightarrow> \<forall>k \<in> set ks. \<exists>cs. map_of buf k = Some cs \<and> cs \<noteq> []
   \<Longrightarrow> dismiss_all d e ks = Inr (d1, outs)
   \<Longrightarrow> d1 = d\<lparr>msg_buffer := Some (filter (\<lambda>(k, cs). k \<notin> set ks) buf)\<rparr>"
proof (induction ks arbitrary: d buf outs)
  case Nil
  then show ?case by simp
next
  case (Cons k ks)
  obtain cs where cs: "map_of buf k = Some cs" "cs \<noteq> []" using Cons.prems(3) by auto
  obtain d' o1 o2 where s1: "dismiss_active_key d e k = Inr (d', o1)"
    and s2: "dismiss_all d' e ks = Inr (d1, o2)"
    using Cons.prems(4) by (auto split: sum.splits)
  have d': "d' = d\<lparr>msg_buffer := Some (AList.delete k buf)\<rparr>"
    using dismiss_shape [OF Cons.prems(1) cs s1] by simp
  have b': "msg_buffer d' = Some (AList.delete k buf)" by (simp add: d')
  have dk: "distinct ks" and nk: "k \<notin> set ks" using Cons.prems(2) by simp_all
  have ents: "\<forall>k' \<in> set ks. \<exists>cs. map_of (AList.delete k buf) k' = Some cs \<and> cs \<noteq> []"
  proof
    fix k' assume k': "k' \<in> set ks"
    then have "k' \<noteq> k" using nk by auto
    then show "\<exists>cs. map_of (AList.delete k buf) k' = Some cs \<and> cs \<noteq> []"
      using Cons.prems(3) k' by (simp add: map_of_delete_other)
  qed
  have "d1 = d'\<lparr>msg_buffer := Some (filter (\<lambda>(k, cs). k \<notin> set ks) (AList.delete k buf))\<rparr>"
    using b' dk ents s2 by (rule Cons.IH)
  moreover have "filter (\<lambda>(k, cs). k \<notin> set ks) (AList.delete k buf)
      = filter (\<lambda>(k', cs). k' \<notin> set (k # ks)) buf"
    unfolding delete_filter filter_filter by (rule filter_cong) auto
  ultimately show ?case by (simp add: d')
qed

lemma dismiss_all_wins:
  "msg_buffer d = Some buf \<Longrightarrow> distinct ks
   \<Longrightarrow> \<forall>xs. mset (shuffle e xs) = mset xs
   \<Longrightarrow> score_code d \<noteq> SNone
   \<Longrightarrow> (\<exists>sf. score_code d = SCode sf) \<longrightarrow> compare_fn d = None
   \<Longrightarrow> \<forall>k \<in> set ks. \<exists>cs. map_of buf k = Some cs \<and> cs \<noteq> []
         \<and> distinct (map (\<lambda>c. fst (c_msg c)) cs) \<and> can_compete d e cs
   \<Longrightarrow> \<exists>outs. dismiss_all d e ks
                = Inr (d\<lparr>msg_buffer := Some (filter (\<lambda>(k, cs). k \<notin> set ks) buf)\<rparr>, outs)
          \<and> list_all2 (\<lambda>k out. \<exists>cs c. map_of buf k = Some cs \<and> wins d e cs c out) ks outs"
proof (induction ks arbitrary: d buf)
  case Nil
  then show ?case by simp
next
  case (Cons k ks)
  obtain cs where cs: "map_of buf k = Some cs" "cs \<noteq> []"
    "distinct (map (\<lambda>c. fst (c_msg c)) cs)" "can_compete d e cs"
    using Cons.prems(6) by auto
  define d' where "d' = d\<lparr>msg_buffer := Some (AList.delete k buf)\<rparr>"
  obtain c out where s1: "dismiss_active_key d e k = Inr (d', [out])" and w1: "wins d e cs c out"
    using dismiss_wins [OF Cons.prems(1) cs(1,2,3) Cons.prems(3,4,5) cs(4)]
    unfolding d'_def by blast
  have b': "msg_buffer d' = Some (AList.delete k buf)" by (simp add: d'_def)
  have dk: "distinct ks" and nk: "k \<notin> set ks" using Cons.prems(2) by simp_all
  have sc': "score_code d' \<noteq> SNone" using Cons.prems(4) by (simp add: d'_def)
  have cf': "(\<exists>sf. score_code d' = SCode sf) \<longrightarrow> compare_fn d' = None"
    using Cons.prems(5) by (simp add: d'_def)
  have cc: "can_compete d' e xs = can_compete d e xs" for xs
    by (rule can_compete_cong) (simp_all add: d'_def)
  have ww: "wins d' e xs x y = wins d e xs x y" for xs x y
    by (rule wins_cong) (simp_all add: d'_def)
  have ents: "\<forall>k' \<in> set ks. \<exists>cs. map_of (AList.delete k buf) k' = Some cs \<and> cs \<noteq> []
         \<and> distinct (map (\<lambda>c. fst (c_msg c)) cs) \<and> can_compete d' e cs"
  proof
    fix k' assume k': "k' \<in> set ks"
    then have "k' \<noteq> k" using nk by auto
    then show "\<exists>cs. map_of (AList.delete k buf) k' = Some cs \<and> cs \<noteq> []
         \<and> distinct (map (\<lambda>c. fst (c_msg c)) cs) \<and> can_compete d' e cs"
      using Cons.prems(6) k' by (simp add: map_of_delete_other cc)
  qed
  obtain outs where s2: "dismiss_all d' e ks
      = Inr (d'\<lparr>msg_buffer := Some (filter (\<lambda>(k, cs). k \<notin> set ks) (AList.delete k buf))\<rparr>, outs)"
    and l2: "list_all2 (\<lambda>k' out. \<exists>cs c. map_of (AList.delete k buf) k' = Some cs \<and> wins d' e cs c out)
               ks outs"
    using Cons.IH [OF b' dk Cons.prems(3) sc' cf' ents] by blast
  have flt: "filter (\<lambda>(k, cs). k \<notin> set ks) (AList.delete k buf)
      = filter (\<lambda>(k', cs). k' \<notin> set (k # ks)) buf"
    unfolding delete_filter filter_filter by (rule filter_cong) auto
  have l2': "list_all2 (\<lambda>k' out. \<exists>cs c. map_of buf k' = Some cs \<and> wins d e cs c out) ks outs"
  proof (rule list_all2_mono [OF l2])
    fix k' out
    assume "\<exists>cs c. map_of (AList.delete k buf) k' = Some cs \<and> wins d' e cs c out"
    then obtain cs' c' where a: "map_of (AList.delete k buf) k' = Some cs'" "wins d' e cs' c' out"
      by blast
    have "k' \<noteq> k" using a(1) by (auto simp: AList.delete_conv split: if_splits)
    then have "map_of buf k' = Some cs'" using a(1) by (simp add: map_of_delete_other)
    then show "\<exists>cs c. map_of buf k' = Some cs \<and> wins d e cs c out"
      using a(2) ww by blast
  qed
  have run: "dismiss_all d e (k # ks)
      = Inr (d\<lparr>msg_buffer := Some (filter (\<lambda>(k', cs). k' \<notin> set (k # ks)) buf)\<rparr>, [out] @ outs)"
    using s1 s2 by (simp add: flt d'_def)
  have hd: "\<exists>cs c. map_of buf k = Some cs \<and> wins d e cs c out"
    using cs(1) w1 by blast
  have "list_all2 (\<lambda>k out. \<exists>cs c. map_of buf k = Some cs \<and> wins d e cs c out)
          (k # ks) ([out] @ outs)"
    using l2' hd by (simp del: split_paired_Ex)
  then show ?case using run by blast
qed

lemma expired_live: "live h now ak = filter (\<lambda>x. x \<notin> set (expired h now ak)) ak"
  unfolding live_def expired_def by (rule filter_cong) auto

lemma distinct_expired: "distinct (map fst ak) \<Longrightarrow> distinct (map fst (expired h now ak))"
  by (simp add: expired_def distinct_map_filter)

lemma clean_expired_unfold:
  assumes "active_keys d = Some ak" and "horizon d = Some h" and "distinct (map fst ak)"
  shows "clean_expired d e =
     (case dismiss_all d e (map fst (expired h (t_clean e) ak)) of
        Inl err \<Rightarrow> Inl err
      | Inr (d1, outs) \<Rightarrow> Inr (d1\<lparr>active_keys := Some (live h (t_clean e) ak)\<rparr>, outs))"
  unfolding clean_expired_def assms(1,2) option.case Let_def expired_def [symmetric]
    delset_filter [OF assms(3), folded expired_def] ..

lemma compete_inv_entry:
  assumes "compete_inv seen d" and "active_keys d = Some ak" and "msg_buffer d = Some buf"
    and "k \<in> fst ` set ak"
  shows "\<exists>cs. map_of buf k = Some cs \<and> cs \<noteq> [] \<and> distinct (map (\<lambda>c. fst (c_msg c)) cs)
           \<and> (\<forall>c \<in> set cs. key_for_msg d (snd (c_msg c)) = k)"
proof -
  have db: "distinct (map fst buf)" and keys: "fst ` set buf = fst ` set ak"
    and ents: "\<forall>(key, cs) \<in> set buf.
                 cs \<noteq> [] \<and> distinct (map (\<lambda>c. fst (c_msg c)) cs)
                 \<and> (\<forall>c \<in> set cs. key_for_msg d (snd (c_msg c)) = key \<and> fst (c_msg c) \<in> seen)"
    using assms(1-3) by (auto simp: compete_inv_def)
  have "k \<in> fst ` set buf" using assms(4) keys by simp
  then obtain cs where mem: "(k, cs) \<in> set buf" by auto
  have "map_of buf k = Some cs" using db mem by (rule map_of_is_SomeI)
  moreover have "cs \<noteq> [] \<and> distinct (map (\<lambda>c. fst (c_msg c)) cs)
                 \<and> (\<forall>c \<in> set cs. key_for_msg d (snd (c_msg c)) = k)"
    using ents mem by auto
  ultimately show ?thesis by blast
qed

lemma compete_inv_fields:
  assumes "compete_inv seen d"
  shows "key_code d \<noteq> None" and "score_code d \<noteq> SNone"
    and "(\<exists>sf. score_code d = SCode sf) \<longrightarrow> compare_fn d = None"
    and "\<exists>h ak buf. horizon d = Some h \<and> active_keys d = Some ak \<and> msg_buffer d = Some buf
           \<and> distinct (map fst ak) \<and> distinct (map fst buf) \<and> fst ` set buf = fst ` set ak"
  using assms unfolding compete_inv_def by blast+

text \<open>Closing the expired windows of a Compete dispatcher, when the call returns.\<close>

lemma clean_expired_compete_shape:
  assumes inv: "compete_inv seen d"
    and ak: "active_keys d = Some ak" and buf: "msg_buffer d = Some buf" and hz: "horizon d = Some h"
    and ret: "clean_expired d e = Inr (d1, outs)"
  shows "d1 = d\<lparr>msg_buffer :=
                   Some (filter (\<lambda>(k, cs). k \<notin> set (map fst (expired h (t_clean e) ak))) buf),
                 active_keys := Some (live h (t_clean e) ak)\<rparr>"
proof -
  have dak: "distinct (map fst ak)" using compete_inv_fields(4) [OF inv] ak by auto
  obtain d2 where s: "dismiss_all d e (map fst (expired h (t_clean e) ak)) = Inr (d2, outs)"
    and d1: "d1 = d2\<lparr>active_keys := Some (live h (t_clean e) ak)\<rparr>"
    using ret unfolding clean_expired_unfold [OF ak hz dak] by (auto split: sum.splits)
  have ents: "\<forall>k \<in> set (map fst (expired h (t_clean e) ak)). \<exists>cs. map_of buf k = Some cs \<and> cs \<noteq> []"
  proof
    fix k assume "k \<in> set (map fst (expired h (t_clean e) ak))"
    then have "k \<in> fst ` set ak" by (auto simp: expired_def)
    from compete_inv_entry [OF inv ak buf this] show "\<exists>cs. map_of buf k = Some cs \<and> cs \<noteq> []"
      by blast
  qed
  have "d2 = d\<lparr>msg_buffer :=
                   Some (filter (\<lambda>(k, cs). k \<notin> set (map fst (expired h (t_clean e) ak))) buf)\<rparr>"
    using buf distinct_expired [OF dak] ents s by (rule dismiss_all_shape)
  then show ?thesis using d1 by simp
qed

lemma clean_expired_compete_wins:
  assumes inv: "compete_inv seen d"
    and ak: "active_keys d = Some ak" and buf: "msg_buffer d = Some buf" and hz: "horizon d = Some h"
    and perm: "\<forall>xs. mset (shuffle e xs) = mset xs"
    and cc: "\<forall>(key, opened) \<in> set (expired h (t_clean e) ak).
               \<forall>cs. map_of buf key = Some cs \<longrightarrow> can_compete d e cs"
  shows "\<exists>outs. clean_expired d e
           = Inr (d\<lparr>msg_buffer :=
                       Some (filter (\<lambda>(k, cs). k \<notin> set (map fst (expired h (t_clean e) ak))) buf),
                     active_keys := Some (live h (t_clean e) ak)\<rparr>, outs)
         \<and> list_all2
             (\<lambda>(key, opened) out.
                \<exists>cs c. map_of buf key = Some cs
                  \<and> (\<forall>c \<in> set cs. key_for_msg d (snd (c_msg c)) = key)
                  \<and> wins d e cs c out)
             (expired h (t_clean e) ak) outs"
proof -
  define X where "X = expired h (t_clean e) ak"
  have dak: "distinct (map fst ak)" using compete_inv_fields(4) [OF inv] ak by auto
  have dX: "distinct (map fst X)" unfolding X_def using dak by (rule distinct_expired)
  have ents: "\<forall>k \<in> set (map fst X). \<exists>cs. map_of buf k = Some cs \<and> cs \<noteq> []
         \<and> distinct (map (\<lambda>c. fst (c_msg c)) cs) \<and> can_compete d e cs"
  proof
    fix k assume k: "k \<in> set (map fst X)"
    then have "k \<in> fst ` set ak" by (auto simp: X_def expired_def)
    from compete_inv_entry [OF inv ak buf this] obtain cs where
      cs: "map_of buf k = Some cs" "cs \<noteq> []" "distinct (map (\<lambda>c. fst (c_msg c)) cs)" by blast
    obtain w where "(k, w) \<in> set X" using k by auto
    then have "can_compete d e cs" using cc cs(1) unfolding X_def by blast
    then show "\<exists>cs. map_of buf k = Some cs \<and> cs \<noteq> []
         \<and> distinct (map (\<lambda>c. fst (c_msg c)) cs) \<and> can_compete d e cs"
      using cs by blast
  qed
  obtain outs where s: "dismiss_all d e (map fst X)
                = Inr (d\<lparr>msg_buffer := Some (filter (\<lambda>(k, cs). k \<notin> set (map fst X)) buf)\<rparr>, outs)"
    and l: "list_all2 (\<lambda>k out. \<exists>cs c. map_of buf k = Some cs \<and> wins d e cs c out) (map fst X) outs"
    using dismiss_all_wins [OF buf dX perm compete_inv_fields(2,3) [OF inv] ents] by blast
  have run: "clean_expired d e
           = Inr (d\<lparr>msg_buffer := Some (filter (\<lambda>(k, cs). k \<notin> set (map fst X)) buf),
                     active_keys := Some (live h (t_clean e) ak)\<rparr>, outs)"
    unfolding clean_expired_unfold [OF ak hz dak] X_def [symmetric] s by simp
  have l': "list_all2 (\<lambda>x out. \<exists>cs c. map_of buf (fst x) = Some cs \<and> wins d e cs c out) X outs"
    using l by (simp add: list_all2_map1)
  have l'': "list_all2
             (\<lambda>x out.
                \<exists>cs c. map_of buf (fst x) = Some cs
                  \<and> (\<forall>c \<in> set cs. key_for_msg d (snd (c_msg c)) = fst x)
                  \<and> wins d e cs c out) X outs"
  proof (rule list_all2_mono [OF l'])
    fix x out
    assume a: "\<exists>cs c. map_of buf (fst x) = Some cs \<and> wins d e cs c out"
    then obtain cs c where b: "map_of buf (fst x) = Some cs" "wins d e cs c out" by blast
    have "(fst x, cs) \<in> set buf" using b(1) by (rule map_of_SomeD)
    then have "fst x \<in> fst ` set ak"
      using compete_inv_fields(4) [OF inv] ak buf by force
    from compete_inv_entry [OF inv ak buf this] b(1)
    have "\<forall>c \<in> set cs. key_for_msg d (snd (c_msg c)) = fst x" by auto
    then show "\<exists>cs c. map_of buf (fst x) = Some cs
                  \<and> (\<forall>c \<in> set cs. key_for_msg d (snd (c_msg c)) = fst x)
                  \<and> wins d e cs c out"
      using b by blast
  qed
  have "list_all2
             (\<lambda>(key, opened) out.
                \<exists>cs c. map_of buf key = Some cs
                  \<and> (\<forall>c \<in> set cs. key_for_msg d (snd (c_msg c)) = key)
                  \<and> wins d e cs c out) X outs"
    unfolding case_prod_unfold by (rule l'')
  then show ?thesis using run unfolding X_def by blast
qed

lemma keys_filter_notin:
  "fst ` set (filter (\<lambda>(k, v). k \<notin> K) xs) = fst ` set xs - K"
  by (induction xs) auto

lemma compete_inv_mono: "compete_inv seen d \<Longrightarrow> seen \<subseteq> seen' \<Longrightarrow> compete_inv seen' d"
  unfolding compete_inv_def by (elim conjE exE) (intro conjI exI, assumption+, blast)

lemma compete_inv_intro:
  assumes "key_code d \<noteq> None" and "score_code d \<noteq> SNone"
    and "(\<exists>sf. score_code d = SCode sf) \<longrightarrow> compare_fn d = None"
    and "horizon d = Some h" and "active_keys d = Some ak" and "msg_buffer d = Some buf"
    and "distinct (map fst ak)" and "distinct (map fst buf)" and "fst ` set buf = fst ` set ak"
    and "\<And>key cs. (key, cs) \<in> set buf \<Longrightarrow>
           cs \<noteq> [] \<and> distinct (map (\<lambda>c. fst (c_msg c)) cs)
           \<and> (\<forall>c \<in> set cs. key_for_msg d (snd (c_msg c)) = key \<and> fst (c_msg c) \<in> seen)"
  shows "compete_inv seen d"
proof -
  have "\<forall>(key, cs) \<in> set buf.
           cs \<noteq> [] \<and> distinct (map (\<lambda>c. fst (c_msg c)) cs)
           \<and> (\<forall>c \<in> set cs. key_for_msg d (snd (c_msg c)) = key \<and> fst (c_msg c) \<in> seen)"
    using assms(10) by blast
  then show ?thesis
    unfolding compete_inv_def using assms(1-9) by blast
qed

lemma compete_inv_ents:
  assumes "compete_inv seen d" and "msg_buffer d = Some buf" and "(key, cs) \<in> set buf"
  shows "cs \<noteq> [] \<and> distinct (map (\<lambda>c. fst (c_msg c)) cs)
           \<and> (\<forall>c \<in> set cs. key_for_msg d (snd (c_msg c)) = key \<and> fst (c_msg c) \<in> seen)"
proof -
  from assms(1) obtain buf' where a: "msg_buffer d = Some buf'"
    and b: "\<forall>(key, cs) \<in> set buf'.
           cs \<noteq> [] \<and> distinct (map (\<lambda>c. fst (c_msg c)) cs)
           \<and> (\<forall>c \<in> set cs. key_for_msg d (snd (c_msg c)) = key \<and> fst (c_msg c) \<in> seen)"
    unfolding compete_inv_def by blast
  have "buf' = buf" using a assms(2) by simp
  then show ?thesis using b assms(3) by blast
qed

lemma clean_expired_compete_inv:
  assumes inv: "compete_inv seen d" and ret: "clean_expired d e = Inr (d1, outs)"
  shows "compete_inv seen d1"
proof -
  obtain h ak buf where f: "horizon d = Some h" "active_keys d = Some ak"
    "msg_buffer d = Some buf" "distinct (map fst ak)" "distinct (map fst buf)"
    "fst ` set buf = fst ` set ak"
    using compete_inv_fields(4) [OF inv] by blast
  note ents = compete_inv_ents [OF inv f(3)]
  define K where "K = set (map fst (expired h (t_clean e) ak))"
  define buf' where "buf' = filter (\<lambda>(k, cs). k \<notin> K) buf"
  define ak' where "ak' = filter (\<lambda>(k, w). k \<notin> K) ak"
  have lv: "live h (t_clean e) ak = ak'"
    unfolding ak'_def K_def expired_def by (rule delset_filter [OF f(4), symmetric])
  have d1: "d1 = d\<lparr>msg_buffer := Some buf', active_keys := Some ak'\<rparr>"
    using clean_expired_compete_shape [OF inv f(2,3,1) ret]
    unfolding lv buf'_def K_def by simp
  have kf: "key_for_msg d1 = key_for_msg d"
    by (rule key_for_msg_cong) (simp add: d1)
  show ?thesis
  proof (rule compete_inv_intro)
    show "key_code d1 \<noteq> None" using compete_inv_fields(1) [OF inv] by (simp add: d1)
    show "score_code d1 \<noteq> SNone" using compete_inv_fields(2) [OF inv] by (simp add: d1)
    show "(\<exists>sf. score_code d1 = SCode sf) \<longrightarrow> compare_fn d1 = None"
      using compete_inv_fields(3) [OF inv] by (simp add: d1)
    show "horizon d1 = Some h" using f(1) by (simp add: d1)
    show "active_keys d1 = Some ak'" by (simp add: d1)
    show "msg_buffer d1 = Some buf'" by (simp add: d1)
    show "distinct (map fst ak')" using f(4) by (simp add: ak'_def distinct_map_filter)
    show "distinct (map fst buf')" using f(5) by (simp add: buf'_def distinct_map_filter)
    show "fst ` set buf' = fst ` set ak'"
      unfolding buf'_def ak'_def keys_filter_notin f(6) ..
    show "cs \<noteq> [] \<and> distinct (map (\<lambda>c. fst (c_msg c)) cs)
           \<and> (\<forall>c \<in> set cs. key_for_msg d1 (snd (c_msg c)) = key \<and> fst (c_msg c) \<in> seen)"
      if "(key, cs) \<in> set buf'" for key cs
    proof -
      have "(key, cs) \<in> set buf" using that by (simp add: buf'_def)
      from ents [OF this] show ?thesis by (simp add: kf)
    qed
  qed
qed

lemma update_entry:
  assumes "distinct (map fst al)" and "(k', v') \<in> set (AList.update k v al)"
  shows "(k' = k \<and> v' = v) \<or> (k' \<noteq> k \<and> (k', v') \<in> set al)"
proof -
  have "distinct (map fst (AList.update k v al))" using assms(1) by (rule distinct_update)
  then have "map_of (AList.update k v al) k' = Some v'"
    using assms(2) by (rule map_of_is_SomeI)
  then have m: "((map_of al)(k \<mapsto> v)) k' = Some v'" by (simp add: update_conv')
  show ?thesis
  proof (cases "k' = k")
    case True
    then show ?thesis using m by simp
  next
    case False
    then have "map_of al k' = Some v'" using m by simp
    then have "(k', v') \<in> set al" by (rule map_of_SomeD)
    then show ?thesis using False by simp
  qed
qed

lemma dispatch_compete_inv:
  assumes inv: "compete_inv seen d" and fresh: "fst m \<notin> seen"
  shows "\<exists>d'. dispatch_compete d e w host rk m = Inr (d', [])
           \<and> compete_inv (insert (fst m) seen) d'"
proof -
  obtain h ak buf where f: "horizon d = Some h" "active_keys d = Some ak"
    "msg_buffer d = Some buf" "distinct (map fst ak)" "distinct (map fst buf)"
    "fst ` set buf = fst ` set ak"
    using compete_inv_fields(4) [OF inv] by blast
  note ents = compete_inv_ents [OF inv f(3)]
  define key where "key = key_for_msg d (snd m)"
  define ak1 where "ak1 = (if key \<notin> fst ` set ak then AList.update key w ak else ak)"
  define old where "old = (case map_of buf key of None \<Rightarrow> [] | Some cs \<Rightarrow> cs)"
  define new where "new = old @ [(w, host, rk, m)]"
  define buf1 where "buf1 = AList.update key new buf"
  define d' where "d' = d\<lparr>active_keys := Some ak1, msg_buffer := Some buf1\<rparr>"
  have run: "dispatch_compete d e w host rk m = Inr (d', [])"
    unfolding dispatch_compete_def Let_def f(2,3) option.case
      key_def [symmetric] old_def [symmetric] new_def [symmetric] buf1_def [symmetric]
      ak1_def [symmetric] d'_def [symmetric] ..
  have kf: "key_for_msg d' = key_for_msg d"
    by (rule key_for_msg_cong) (simp add: d'_def)
  have oldp: "distinct (map (\<lambda>c. fst (c_msg c)) old)
           \<and> (\<forall>c \<in> set old. key_for_msg d (snd (c_msg c)) = key \<and> fst (c_msg c) \<in> seen)"
  proof (cases "map_of buf key")
    case None
    then show ?thesis by (simp add: old_def)
  next
    case (Some cs)
    then have "(key, cs) \<in> set buf" by (rule map_of_SomeD)
    from ents [OF this] show ?thesis using Some by (simp add: old_def)
  qed
  have newp: "new \<noteq> [] \<and> distinct (map (\<lambda>c. fst (c_msg c)) new)
           \<and> (\<forall>c \<in> set new. key_for_msg d (snd (c_msg c)) = key
                  \<and> fst (c_msg c) \<in> insert (fst m) seen)"
  proof (intro conjI ballI)
    show "new \<noteq> []" by (simp add: new_def)
    have "fst m \<notin> (\<lambda>c. fst (c_msg c)) ` set old" using oldp fresh by auto
    then show "distinct (map (\<lambda>c. fst (c_msg c)) new)"
      using oldp by (simp add: new_def c_msg_def)
    fix c assume "c \<in> set new"
    then have c: "c \<in> set old \<or> c = (w, host, rk, m)" by (auto simp: new_def)
    then show "key_for_msg d (snd (c_msg c)) = key"
      using oldp by (auto simp: c_msg_def key_def)
    from c show "fst (c_msg c) \<in> insert (fst m) seen"
      using oldp by (auto simp: c_msg_def)
  qed
  have keys_ak1: "fst ` set ak1 = insert key (fst ` set ak)"
    by (auto simp: ak1_def dom_update)
  have keys_buf1: "fst ` set buf1 = insert key (fst ` set buf)"
    by (simp add: buf1_def dom_update)
  have "compete_inv (insert (fst m) seen) d'"
  proof (rule compete_inv_intro)
    show "key_code d' \<noteq> None" using compete_inv_fields(1) [OF inv] by (simp add: d'_def)
    show "score_code d' \<noteq> SNone" using compete_inv_fields(2) [OF inv] by (simp add: d'_def)
    show "(\<exists>sf. score_code d' = SCode sf) \<longrightarrow> compare_fn d' = None"
      using compete_inv_fields(3) [OF inv] by (simp add: d'_def)
    show "horizon d' = Some h" using f(1) by (simp add: d'_def)
    show "active_keys d' = Some ak1" by (simp add: d'_def)
    show "msg_buffer d' = Some buf1" by (simp add: d'_def)
    show "distinct (map fst ak1)" using f(4) by (simp add: ak1_def distinct_update)
    show "distinct (map fst buf1)" using f(5) by (simp add: buf1_def distinct_update)
    show "fst ` set buf1 = fst ` set ak1" unfolding keys_ak1 keys_buf1 f(6) ..
    show "cs \<noteq> [] \<and> distinct (map (\<lambda>c. fst (c_msg c)) cs)
           \<and> (\<forall>c \<in> set cs. key_for_msg d' (snd (c_msg c)) = k
                  \<and> fst (c_msg c) \<in> insert (fst m) seen)"
      if "(k, cs) \<in> set buf1" for k cs
    proof -
      from update_entry [OF f(5) that [unfolded buf1_def]]
      show ?thesis
      proof
        assume "k = key \<and> cs = new"
        then show ?thesis using newp by (simp add: kf)
      next
        assume "k \<noteq> key \<and> (k, cs) \<in> set buf"
        then have "(k, cs) \<in> set buf" by simp
        from ents [OF this] show ?thesis by (simp add: kf)
      qed
    qed
  qed
  then show ?thesis using run by blast
qed

lemma compete_inv_init:
  assumes "o_key opts = Some kc" and "o_score opts = Some sc"
  shows "compete_inv {} (Dispatcher rules opts extra)"
proof (rule compete_inv_intro)
  show "key_code (Dispatcher rules opts extra) \<noteq> None" using assms by (simp add: Dispatcher_def)
  show "score_code (Dispatcher rules opts extra) \<noteq> SNone"
    using assms by (cases sc) (simp_all add: Dispatcher_def)
  show "(\<exists>sf. score_code (Dispatcher rules opts extra) = SCode sf)
          \<longrightarrow> compare_fn (Dispatcher rules opts extra) = None"
    using assms by (cases sc) (simp_all add: Dispatcher_def)
  show "horizon (Dispatcher rules opts extra)
          = Some (case o_window opts of Some w \<Rightarrow> w | None \<Rightarrow> DEFAULT_HORIZON_SEC)"
    using assms by (simp add: Dispatcher_def split: option.splits)
  show "active_keys (Dispatcher rules opts extra) = Some []" using assms by (simp add: Dispatcher_def)
  show "msg_buffer (Dispatcher rules opts extra) = Some []" using assms by (simp add: Dispatcher_def)
qed simp_all

lemma call_first_step_compete:
  assumes inv: "compete_inv seen d"
    and ret: "(case active_keys d of Some (a # ak) \<Rightarrow> clean_expired d e | _ \<Rightarrow> Inr (d, []))
                = Inr (d1, outs)"
  shows "compete_inv seen d1"
proof (cases "active_keys d")
  case None
  then show ?thesis using inv ret by simp
next
  case (Some ak)
  show ?thesis
  proof (cases ak)
    case Nil
    then show ?thesis using inv ret Some by simp
  next
    case (Cons a ak')
    then have "clean_expired d e = Inr (d1, outs)" using ret Some by simp
    with inv show ?thesis by (rule clean_expired_compete_inv)
  qed
qed

lemma call_InrE:
  assumes c: "call d e c = Inr (d', outs, wt)"
  obtains d1 outs1 where
    "(case active_keys d of Some (a # ak) \<Rightarrow> clean_expired d e | _ \<Rightarrow> Inr (d, []))
       = Inr (d1, outs1)"
    and "c = Tick \<longrightarrow> d' = d1"
    and "\<forall>w host rk m. c = Deliver w host rk m \<longrightarrow> key_code d1 \<noteq> None \<longrightarrow>
           (\<exists>outs2. (case score_code d1 of
                        SNone \<Rightarrow> dispatch_race d1 e w host rk m
                      | _ \<Rightarrow> dispatch_compete d1 e w host rk m) = Inr (d', outs2))"
proof -
  define X where
    "X = (case active_keys d of Some (a # ak) \<Rightarrow> clean_expired d e | _ \<Rightarrow> Inr (d, []))"
  show thesis
  proof (cases X)
    case (Inl err)
    have "call d e c = Inl err" unfolding call_def X_def [symmetric] Inl by simp
    with c show ?thesis by simp
  next
    case (Inr p)
    obtain d1 outs1 where p: "p = (d1, outs1)" by (cases p)
    have s1: "X = Inr (d1, outs1)" using Inr p by simp
    have cu: "(case c of
             Tick \<Rightarrow>
               (case max_sleep_til_next_window d1 e of
                  Inl err \<Rightarrow> Inl err
                | Inr w \<Rightarrow> Inr (d1, outs1, w))
           | Deliver when host routing_key msg \<Rightarrow>
               (case key_code d1 of
                  Some kc \<Rightarrow>
                    (case (case score_code d1 of
                             SNone \<Rightarrow> dispatch_race d1 e when host routing_key msg
                           | _ \<Rightarrow> dispatch_compete d1 e when host routing_key msg) of
                       Inl err \<Rightarrow> Inl err
                     | Inr (d2, outs2) \<Rightarrow>
                         (case max_sleep_til_next_window d2 e of
                            Inl err \<Rightarrow> Inl err
                          | Inr w \<Rightarrow> Inr (d2, outs1 @ outs2, w)))
                | None \<Rightarrow>
                    (case emit d1 e routing_key (snd msg) of
                       Inl err \<Rightarrow> Inl err
                     | Inr out \<Rightarrow> Inr (d1, outs1 @ [out], None)))) = Inr (d', outs, wt)"
      using c unfolding call_def X_def [symmetric] s1 by simp
    have t: "c = Tick \<longrightarrow> d' = d1"
    proof
      assume "c = Tick"
      then show "d' = d1" using cu by (simp split: sum.splits)
    qed
    have dl: "\<forall>w host rk m. c = Deliver w host rk m \<longrightarrow> key_code d1 \<noteq> None \<longrightarrow>
           (\<exists>outs2. (case score_code d1 of
                        SNone \<Rightarrow> dispatch_race d1 e w host rk m
                      | _ \<Rightarrow> dispatch_compete d1 e w host rk m) = Inr (d', outs2))"
    proof (intro allI impI)
      fix w host rk m
      assume cd: "c = Deliver w host rk m" and k: "key_code d1 \<noteq> None"
      from k obtain kc where kc: "key_code d1 = Some kc" by auto
      define Y where "Y = (case score_code d1 of
                        SNone \<Rightarrow> dispatch_race d1 e w host rk m
                      | _ \<Rightarrow> dispatch_compete d1 e w host rk m)"
      have cu2: "(case Y of
                       Inl err \<Rightarrow> Inl err
                     | Inr (d2, outs2) \<Rightarrow>
                         (case max_sleep_til_next_window d2 e of
                            Inl err \<Rightarrow> Inl err
                          | Inr w \<Rightarrow> Inr (d2, outs1 @ outs2, w))) = Inr (d', outs, wt)"
        using cu unfolding cd Y_def by (simp add: kc)
      show "\<exists>outs2. (case score_code d1 of
                        SNone \<Rightarrow> dispatch_race d1 e w host rk m
                      | _ \<Rightarrow> dispatch_compete d1 e w host rk m) = Inr (d', outs2)"
        unfolding Y_def [symmetric]
      proof (cases Y)
        case (Inl err)
        then show "\<exists>outs2. Y = Inr (d', outs2)" using cu2 by simp
      next
        case (Inr q)
        obtain d2 outs2 where q: "q = (d2, outs2)" by (cases q)
        have "d' = d2" using cu2 unfolding Inr q by (simp split: sum.splits)
        then show "\<exists>outs2. Y = Inr (d', outs2)" using Inr q by simp
      qed
    qed
    show ?thesis using that [OF s1 [unfolded X_def] t dl] .
  qed
qed

lemma call_compete_inv:
  assumes inv: "compete_inv seen d" and c: "call d e c = Inr (d', outs, wt)"
  shows "c = Tick \<Longrightarrow> compete_inv seen d'"
    and "c = Deliver w host rk m \<Longrightarrow> fst m \<notin> seen \<Longrightarrow> compete_inv (insert (fst m) seen) d'"
proof -
  from c obtain d1 outs1 where s1:
    "(case active_keys d of Some (a # ak) \<Rightarrow> clean_expired d e | _ \<Rightarrow> Inr (d, []))
       = Inr (d1, outs1)"
    and t: "c = Tick \<longrightarrow> d' = d1"
    and dl: "\<forall>w host rk m. c = Deliver w host rk m \<longrightarrow> key_code d1 \<noteq> None \<longrightarrow>
           (\<exists>outs2. (case score_code d1 of
                        SNone \<Rightarrow> dispatch_race d1 e w host rk m
                      | _ \<Rightarrow> dispatch_compete d1 e w host rk m) = Inr (d', outs2))"
    by (rule call_InrE)
  have inv1: "compete_inv seen d1" using inv s1 by (rule call_first_step_compete)
  have kc: "key_code d1 \<noteq> None" using compete_inv_fields(1) [OF inv1] by auto
  have sc: "score_code d1 \<noteq> SNone" by (rule compete_inv_fields(2) [OF inv1])
  show "compete_inv seen d'" if "c = Tick"
    using t that inv1 by simp
  show "compete_inv (insert (fst m) seen) d'" if cd: "c = Deliver w host rk m" and fr: "fst m \<notin> seen"
  proof -
    obtain d2 where s2: "dispatch_compete d1 e w host rk m = Inr (d2, [])"
      and inv2: "compete_inv (insert (fst m) seen) d2"
      using dispatch_compete_inv [OF inv1 fr] by blast
    have eq: "(case score_code d1 of
             SNone \<Rightarrow> dispatch_race d1 e w host rk m
           | _ \<Rightarrow> dispatch_compete d1 e w host rk m) = Inr (d2, [])"
      using sc s2 by (cases "score_code d1") simp_all
    from dl cd kc obtain outs2 where "(case score_code d1 of
                        SNone \<Rightarrow> dispatch_race d1 e w host rk m
                      | _ \<Rightarrow> dispatch_compete d1 e w host rk m) = Inr (d', outs2)" by blast
    then have "d' = d2" unfolding eq by simp
    then show ?thesis using inv2 by simp
  qed
qed

lemma run_compete_inv:
  "compete_inv seen d \<Longrightarrow> distinct (delivered_ids calls)
   \<Longrightarrow> set (delivered_ids calls) \<inter> seen = {}
   \<Longrightarrow> run d calls = Inr (d', outss)
   \<Longrightarrow> compete_inv (seen \<union> set (delivered_ids calls)) d'"
proof (induction calls arbitrary: d seen outss)
  case Nil
  then show ?case by simp
next
  case (Cons ec calls)
  obtain e c where ec: "ec = (e, c)" by (cases ec)
  obtain d1 outs wt outss1 where c1: "call d e c = Inr (d1, outs, wt)"
    and r1: "run d1 calls = Inr (d', outss1)"
    using Cons.prems(4) by (auto simp: ec split: sum.splits)
  show ?case
  proof (cases c)
    case Tick
    have i1: "compete_inv seen d1" using call_compete_inv(1) [OF Cons.prems(1) c1 Tick] .
    have "compete_inv (seen \<union> set (delivered_ids calls)) d'"
      using i1 _ _ r1
    proof (rule Cons.IH)
      show "distinct (delivered_ids calls)" using Cons.prems(2) by (simp add: ec Tick)
      show "set (delivered_ids calls) \<inter> seen = {}" using Cons.prems(3) by (simp add: ec Tick)
    qed
    then show ?thesis by (simp add: ec Tick)
  next
    case (Deliver w host rk m)
    have fr: "fst m \<notin> seen" using Cons.prems(3) by (simp add: ec Deliver)
    have i1: "compete_inv (insert (fst m) seen) d1"
      using call_compete_inv(2) [OF Cons.prems(1) c1 Deliver fr] .
    have "compete_inv (insert (fst m) seen \<union> set (delivered_ids calls)) d'"
      using i1 _ _ r1
    proof (rule Cons.IH)
      show "distinct (delivered_ids calls)" using Cons.prems(2) by (simp add: ec Deliver)
      show "set (delivered_ids calls) \<inter> insert (fst m) seen = {}"
        using Cons.prems(2,3) by (auto simp: ec Deliver)
    qed
    then show ?thesis by (simp add: ec Deliver)
  qed
qed

text \<open>
  Closing windows in Compete mode. In every state \<open>d\<close> that a dispatcher with a key
  and a score reaches, when the messages delivered have different identities, the
  shuffle is a permutation, and the candidates of every expired window can compete
  (pairwise comparisons return one of their arguments, \<open>emit\<close> raises on none):
  \<open>_clean_expired\<close> returns, with exactly one output for each expired window, in
  the order of the windows; the output is what \<open>emit\<close> makes of one of the
  candidates buffered for the key of the window, all of which have that key; when the
  score is scalar no candidate of the window has a larger score; the expired windows
  and their buffers are removed and the others kept; and the scalar comparison keeps
  its first argument on a tie.
\<close>

theorem compete_window_close:
  assumes "o_key opts = Some kc" and "o_score opts = Some sc"
    and "d0 = Dispatcher rules opts extra"
    and "run d0 calls = Inr (d, outss)"
    and "distinct (delivered_ids calls)"
    and "active_keys d = Some ak" and "msg_buffer d = Some buf" and "horizon d = Some h"
    and "\<forall>xs. mset (shuffle e xs) = mset xs"
    and "\<forall>(key, opened) \<in> set (expired h (t_clean e) ak).
           \<forall>cs. map_of buf key = Some cs \<longrightarrow> can_compete d e cs"
  shows "\<exists>d' outs. clean_expired d e = Inr (d', outs)
     \<and> list_all2
         (\<lambda>(key, opened) out.
            \<exists>cs c. map_of buf key = Some cs
              \<and> (\<forall>c \<in> set cs. key_for_msg d (snd (c_msg c)) = key)
              \<and> wins d e cs c out)
         (expired h (t_clean e) ak) outs
     \<and> active_keys d' = Some (live h (t_clean e) ak)
     \<and> msg_buffer d'
         = Some (filter (\<lambda>(k, cs). k \<notin> set (map fst (expired h (t_clean e) ak))) buf)
     \<and> (ak \<noteq> [] \<longrightarrow> (\<exists>wt. call d e Tick = Inr (d', outs, wt)))
     \<and> (\<forall>a b s. compare_fn d = None \<and> score_for_msg d (snd a) = Some s
                  \<and> score_for_msg d (snd b) = Some s \<longrightarrow> compare d a b = Inr a)"
proof -
  have "compete_inv {} d0" unfolding assms(3) using assms(1,2) by (rule compete_inv_init)
  then have "compete_inv ({} \<union> set (delivered_ids calls)) d"
    using assms(5) _ assms(4) by (rule run_compete_inv) simp
  then obtain seen where inv: "compete_inv seen d" by blast
  define d' where
    "d' = d\<lparr>msg_buffer :=
               Some (filter (\<lambda>(k, cs). k \<notin> set (map fst (expired h (t_clean e) ak))) buf),
             active_keys := Some (live h (t_clean e) ak)\<rparr>"
  obtain outs where run: "clean_expired d e = Inr (d', outs)"
    and l: "list_all2
             (\<lambda>(key, opened) out.
                \<exists>cs c. map_of buf key = Some cs
                  \<and> (\<forall>c \<in> set cs. key_for_msg d (snd (c_msg c)) = key)
                  \<and> wins d e cs c out)
             (expired h (t_clean e) ak) outs"
    using clean_expired_compete_wins [OF inv assms(6,7,8,9,10)] unfolding d'_def by blast
  have a: "active_keys d' = Some (live h (t_clean e) ak)" by (simp add: d'_def)
  have b: "msg_buffer d'
         = Some (filter (\<lambda>(k, cs). k \<notin> set (map fst (expired h (t_clean e) ak))) buf)"
    by (simp add: d'_def)
  have t: "ak \<noteq> [] \<longrightarrow> (\<exists>wt. call d e Tick = Inr (d', outs, wt))"
  proof
    assume "ak \<noteq> []"
    then obtain x ak' where ak: "ak = x # ak'" by (cases ak) auto
    have "horizon d' = Some h" using assms(8) by (simp add: d'_def)
    then obtain wt where wt: "max_sleep_til_next_window d' e = Inr wt"
      using max_sleep_total by blast
    have first: "(case active_keys d of Some (a # ak) \<Rightarrow> clean_expired d e | _ \<Rightarrow> Inr (d, []))
                   = Inr (d', outs)"
      unfolding assms(6) ak using run by simp
    have "call d e Tick = Inr (d', outs, wt)"
      unfolding call_def first by (simp add: wt)
    then show "\<exists>wt. call d e Tick = Inr (d', outs, wt)" by blast
  qed
  have tie: "\<forall>a b s. compare_fn d = None \<and> score_for_msg d (snd a) = Some s
                  \<and> score_for_msg d (snd b) = Some s \<longrightarrow> compare d a b = Inr a"
    by (simp add: compare_def)
  show ?thesis
    by (rule exI [of _ d'], rule exI [of _ outs]) (intro conjI run l a b t tie)
qed

lemmas compete_eval =
  compete_opts_def race_opts_def key_sat_def score_defects_def key_for_msg_def score_for_msg_def
  Dispatcher_def call_def dispatch_compete_def clean_expired_def dismiss_active_key_def
  choose_msg_def compare_def env_at_def emit_def add_default_metadata_def setdefault_def
  Transforms_call_def G16_def unscored_def json_emit_template_t max_sleep_til_next_window_def
  AList.update.simps AList.delete_eq Let_def

lemma S2_run:
  "run (Dispatcher (Some []) (compete_opts 1000000) []) S2_calls = Inr (S2_state, [[], [], []])"
  by (simp add: S2_calls_def S2_buffer_def S2_state_def compete_eval)

lemma S2_close:
  "call S2_state (env_at 1200000) Tick
     = Inr ((Dispatcher (Some []) (compete_opts 1000000) [])
              \<lparr>active_keys := Some [], msg_buffer := Some []\<rparr>, [Printed ''2''], None)"
  by (simp add: S2_buffer_def S2_state_def compete_eval)

lemma S2_can_compete: "can_compete S2_state (env_at 1200000) S2_buffer"
  by (simp add: can_compete_def comparable_def c_msg_def c_rk_def S2_buffer_def S2_state_def
      compete_eval)

lemma compete_window_close_S2:
  "\<exists>d' out c. clean_expired S2_state (env_at 1200000) = Inr (d', [out])
      \<and> wins S2_state (env_at 1200000) S2_buffer c out
      \<and> call S2_state (env_at 1200000) Tick = Inr (d', [Printed ''2''], None)"
proof -
  have h1: "o_key (compete_opts 1000000) = Some key_sat"
    and h2: "o_score (compete_opts 1000000) = Some (Scalar score_defects)"
    by (simp_all add: compete_opts_def race_opts_def)
  have ds: "distinct (delivered_ids S2_calls)"
    by (simp add: S2_calls_def S2_buffer_def)
  have ak: "active_keys S2_state = Some [(Some (PStr ''G16''), 0)]"
    and buf: "msg_buffer S2_state = Some [(Some (PStr ''G16''), S2_buffer)]"
    and hz: "horizon S2_state = Some 1000000"
    by (simp_all add: S2_state_def Dispatcher_def compete_opts_def race_opts_def)
  have perm: "\<forall>xs. mset (shuffle (env_at 1200000) xs) = mset xs"
    by (simp add: env_at_def)
  have ex: "expired 1000000 (t_clean (env_at 1200000)) [(Some (PStr ''G16''), 0)]
              = [(Some (PStr ''G16''), 0)]"
    by (simp add: expired_def env_at_def)
  have cc: "\<forall>(key, opened) \<in> set (expired 1000000 (t_clean (env_at 1200000)) [(Some (PStr ''G16''), 0)]).
             \<forall>cs. map_of [(Some (PStr ''G16''), S2_buffer)] key = Some cs
                   \<longrightarrow> can_compete S2_state (env_at 1200000) cs"
    unfolding ex using S2_can_compete by simp
  from compete_window_close [OF h1 h2 refl S2_run ds ak buf hz perm cc]
  obtain d' outs where ce: "clean_expired S2_state (env_at 1200000) = Inr (d', outs)"
    and l: "list_all2
         (\<lambda>(key, opened) out.
            \<exists>cs c. map_of [(Some (PStr ''G16''), S2_buffer)] key = Some cs
              \<and> (\<forall>c \<in> set cs. key_for_msg S2_state (snd (c_msg c)) = key)
              \<and> wins S2_state (env_at 1200000) cs c out)
         (expired 1000000 (t_clean (env_at 1200000)) [(Some (PStr ''G16''), 0)]) outs"
    and t: "[(Some (PStr ''G16''), 0 :: int)] \<noteq> []
              \<longrightarrow> (\<exists>wt. call S2_state (env_at 1200000) Tick = Inr (d', outs, wt))"
    by blast
  from l obtain out c where o: "outs = [out]" and w: "wins S2_state (env_at 1200000) S2_buffer c out"
    unfolding ex by (auto simp: list_all2_Cons1)
  from t obtain wt where "call S2_state (env_at 1200000) Tick = Inr (d', [out], wt)"
    unfolding o by auto
  then have "call S2_state (env_at 1200000) Tick = Inr (d', [Printed ''2''], None)"
    using S2_close by simp
  then show ?thesis using ce w unfolding o by blast
qed

text \<open>
  C1 fails on the code when a candidate has no score. With the score expression of
  the examples, a message without the field \<open>defects\<close> has the score \<open>None\<close>
  (the \<open>NameError\<close> is caught and logged). When the window of its key closes with another candidate in it, the
  comparison of \<open>None\<close> with an integer raises \<open>TypeError\<close>, in either order of
  the two candidates, and the exception leaves \<open>Dispatcher.__call__\<close>: no event is
  emitted for the window. With a score on both candidates, the same run emits the
  one with the larger score.
\<close>

theorem compete_failed_score_raises:
  "score_for_msg (Dispatcher (Some []) (compete_opts 1000000) []) unscored = None
   \<and> map_sum id snd
        (run (Dispatcher (Some []) (compete_opts 1000000) [])
           [(env_at 0, Deliver 0 ''A'' ''topic'' (1, G16 ''1'' 5)),
            (env_at 300000, Deliver 300000 ''B'' ''topic'' (2, unscored)),
            (env_at 1200000, Tick)])
       = Inl TypeError
   \<and> map_sum id snd
        (run (Dispatcher (Some []) (compete_opts 1000000) [])
           [(env_at 0, Deliver 0 ''A'' ''topic'' (1, G16 ''1'' 5)),
            (env_at 300000, Deliver 300000 ''B'' ''topic'' (2, unscored)),
            ((env_at 1200000)\<lparr>shuffle := id\<rparr>, Tick)])
       = Inl TypeError
   \<and> map_sum id snd
        (run (Dispatcher (Some []) (compete_opts 1000000) [])
           [(env_at 0, Deliver 0 ''A'' ''topic'' (1, G16 ''1'' 5)),
            (env_at 300000, Deliver 300000 ''B'' ''topic'' (2, G16 ''2'' 7)),
            (env_at 1200000, Tick)])
       = Inr [[], [], [Printed ''2'']]"
  by (simp add: compete_eval)
end
